theory Spec2Isabelle
  imports Complex_Main
begin

section \<open>Values, errors and the browser\<close>

text \<open>
  Run-time values that flow through the extraction pipeline. Primitives are compared by
  value, objects and promises by their reference identity, so that HOL equality on
  \<open>jsval\<close> is the equality a JavaScript \<open>Set\<close> uses for its members.
\<close>

datatype jsval =
    VUndefined
  | VNull
  | VBool bool
  | VNum real
  | VNaN
  | VStr string
  | VObj nat
  | VPromise nat

text \<open>Truthiness, as tested by \<open>if (x)\<close>, \<open>!x\<close>, \<open>x || y\<close> and \<open>Boolean(x)\<close>.\<close>

fun truthy :: "jsval \<Rightarrow> bool" where
  "truthy VUndefined = False"
| "truthy VNull = False"
| "truthy (VBool b) = b"
| "truthy (VNum r) = (r \<noteq> 0)"
| "truthy VNaN = False"
| "truthy (VStr s) = (s \<noteq> [])"
| "truthy (VObj r) = True"
| "truthy (VPromise r) = True"

text \<open>
  A thrown value: an \<open>Error\<close> object with its \<open>name\<close> and \<open>message\<close>, or the value
  \<open>undefined\<close> (what \<open>throw lastError\<close> throws when no failure was recorded).
\<close>

datatype error = Error string string | Undefined_thrown

definition TypeError :: "string \<Rightarrow> error" where
  "TypeError msg = Error ''TypeError'' msg"

type_synonym element = nat

datatype locator = ByCss string | ByTagName string

datatype script = WindowOpen | CheckProfile | OuterHTML | ScrollIntoView

text \<open>The commands the program sends to the Selenium driver.\<close>

datatype cmd =
    Build
  | Quit
  | Get string
  | WaitLocated locator nat
  | WaitVisible element nat
  | Sleep nat
  | FindElements locator
  | GetText element
  | GetAttribute element string
  | IsDisplayed element
  | Click element
  | ExecuteScript script "element option"
  | Refresh
  | GetWindowHandle
  | GetAllWindowHandles
  | SwitchToWindow "string option"
  | Close

text \<open>
  The browser behind the driver is an external collaborator. It is modelled as a
  deterministic environment: the outcome of a command is a function of the commands
  issued before it and of the command itself, one function for each type of answer.
\<close>

record browser =
  on_unit :: "cmd list \<Rightarrow> cmd \<Rightarrow> error option"
  on_elements :: "cmd list \<Rightarrow> cmd \<Rightarrow> error + element list"
  on_string :: "cmd list \<Rightarrow> cmd \<Rightarrow> error + string option"
  on_strings :: "cmd list \<Rightarrow> cmd \<Rightarrow> error + string list"
  on_bool :: "cmd list \<Rightarrow> cmd \<Rightarrow> error + bool"
  on_value :: "cmd list \<Rightarrow> cmd \<Rightarrow> error + jsval"

text \<open>
  The state of the process: the log of driver commands issued so far, the module-level
  map \<open>validatedProfiles\<close>, and the number of objects allocated so far (the source of
  reference identities for objects and promises created by transform closures).
\<close>

record world =
  trace :: "cmd list"
  validatedProfiles :: "string \<rightharpoonup> bool"
  allocated :: nat

definition issue :: "cmd \<Rightarrow> world \<Rightarrow> world" where
  "issue c w = w\<lparr>trace := trace w @ [c]\<rparr>"

definition drv_unit :: "browser \<Rightarrow> cmd \<Rightarrow> world \<Rightarrow> (error + unit) \<times> world" where
  "drv_unit b c w =
     ((case on_unit b (trace w) c of None \<Rightarrow> Inr () | Some e \<Rightarrow> Inl e), issue c w)"

definition drv_elements :: "browser \<Rightarrow> cmd \<Rightarrow> world \<Rightarrow> (error + element list) \<times> world" where
  "drv_elements b c w = (on_elements b (trace w) c, issue c w)"

definition drv_string :: "browser \<Rightarrow> cmd \<Rightarrow> world \<Rightarrow> (error + string option) \<times> world" where
  "drv_string b c w = (on_string b (trace w) c, issue c w)"

definition drv_strings :: "browser \<Rightarrow> cmd \<Rightarrow> world \<Rightarrow> (error + string list) \<times> world" where
  "drv_strings b c w = (on_strings b (trace w) c, issue c w)"

definition drv_bool :: "browser \<Rightarrow> cmd \<Rightarrow> world \<Rightarrow> (error + bool) \<times> world" where
  "drv_bool b c w = (on_bool b (trace w) c, issue c w)"

definition drv_value :: "browser \<Rightarrow> cmd \<Rightarrow> world \<Rightarrow> (error + jsval) \<times> world" where
  "drv_value b c w = (on_value b (trace w) c, issue c w)"

text \<open>Sequencing of awaited calls: the first failure is propagated.\<close>

definition thenE ::
  "('s \<Rightarrow> (error + 'a) \<times> 's) \<Rightarrow> ('a \<Rightarrow> 's \<Rightarrow> (error + 'b) \<times> 's) \<Rightarrow> 's \<Rightarrow> (error + 'b) \<times> 's" where
  "thenE m f s = (case m s of (Inl e, s') \<Rightarrow> (Inl e, s') | (Inr x, s') \<Rightarrow> f x s')"

definition returnE :: "'a \<Rightarrow> 's \<Rightarrow> (error + 'a) \<times> 's" where
  "returnE x s = (Inr x, s)"

section \<open>retryOperation\<close>

text \<open>
  The \<open>for\<close> loop of \<open>retryOperation\<close>, at index \<open>i\<close> with the current \<open>lastError\<close>.
  A successful attempt returns at once. A failed attempt named
  \<open>StaleElementReferenceError\<close>, when a driver was passed, refreshes the page, sleeps and
  goes to the next index; the refresh and the sleep happen inside the \<open>catch\<close> block, so
  their own failure leaves the function. Any other failure is rethrown at the last index
  and otherwise followed by a timer wait, which cannot fail and touches no state.
  Reading \<open>error.name\<close> of a thrown \<open>undefined\<close> is itself a TypeError.
\<close>

function retry_loop ::
  "(world \<Rightarrow> (error + 'a) \<times> world) \<Rightarrow> int \<Rightarrow> nat \<Rightarrow> browser option \<Rightarrow> int \<Rightarrow> error
     \<Rightarrow> world \<Rightarrow> (error + 'a) \<times> world" where
  "retry_loop operation maxRetries delay driver i lastError w =
     (if i < maxRetries then
        (case operation w of
           (Inr v, w1) \<Rightarrow> (Inr v, w1)
         | (Inl err, w1) \<Rightarrow>
             (case err of
                Undefined_thrown \<Rightarrow> (Inl (TypeError ''name''), w1)
              | Error nm msg \<Rightarrow>
                  (case driver of
                     Some b \<Rightarrow>
                       if nm = ''StaleElementReferenceError'' then
                         (case drv_unit b Refresh w1 of
                            (Inl e2, w2) \<Rightarrow> (Inl e2, w2)
                          | (Inr u2, w2) \<Rightarrow>
                              (case drv_unit b (Sleep delay) w2 of
                                 (Inl e3, w3) \<Rightarrow> (Inl e3, w3)
                               | (Inr u3, w3) \<Rightarrow>
                                   retry_loop operation maxRetries delay driver (i + 1) err w3))
                       else if i = maxRetries - 1 then (Inl err, w1)
                       else retry_loop operation maxRetries delay driver (i + 1) err w1
                   | None \<Rightarrow>
                       if i = maxRetries - 1 then (Inl err, w1)
                       else retry_loop operation maxRetries delay driver (i + 1) err w1)))
      else (Inl lastError, w))"
  by pat_completeness auto
termination
  by (relation "measure (\<lambda>(operation, maxRetries, delay, driver, i, lastError, w). nat (maxRetries - i))")
     auto

declare retry_loop.simps [simp del]

definition retryOperation ::
  "(world \<Rightarrow> (error + 'a) \<times> world) \<Rightarrow> int \<Rightarrow> nat \<Rightarrow> browser option
     \<Rightarrow> world \<Rightarrow> (error + 'a) \<times> world" where
  "retryOperation operation maxRetries delay driver w =
     retry_loop operation maxRetries delay driver 0 Undefined_thrown w"

section \<open>Patterns\<close>

text \<open>
  A regular expression is used only through \<open>text.match(regex)\<close>, whose answer is
  \<open>null\<close> or an array of matches (an entry is \<open>undefined\<close> for a capture group that
  took no part). The regex engine is a built-in of the language and is taken as given.
\<close>

type_synonym regex = "string \<Rightarrow> jsval list option"

record ExtractionConfig =
  selectors :: "string list"
  attribute :: "string option"
  transform :: "(jsval \<Rightarrow> browser option \<Rightarrow> world \<Rightarrow> (error + jsval) \<times> world) option"
  validate :: "(jsval \<Rightarrow> world \<Rightarrow> (error + bool) \<times> world) option"

record DataPattern =
  name :: string
  patterns :: "regex list"
  config :: ExtractionConfig

section \<open>extractDataByPattern\<close>

text \<open>\<open>Set.prototype.add\<close> on a set kept in insertion order, as \<open>Array.from\<close> reads it.\<close>

definition set_add :: "'a \<Rightarrow> 'a list \<Rightarrow> 'a list" where
  "set_add v xs = (if v \<in> set xs then xs else xs @ [v])"

text \<open>\<open>xs.forEach(x => results.add(x))\<close>\<close>

definition add_all :: "'a list \<Rightarrow> 'a list \<Rightarrow> 'a list" where
  "add_all xs results = foldl (\<lambda>rs x. set_add x rs) results xs"

text \<open>
  The callback of \<open>matches.forEach\<close>: the transform, when there is one, is called with
  the match alone (no driver) and its result is used as it is returned; the value is
  added when there is no validator or the validator accepts it. The set \<open>results\<close> is
  mutated in place, so what was added before a throw stays added.
\<close>

definition processMatch ::
  "DataPattern \<Rightarrow> jsval \<Rightarrow> jsval list \<times> world \<Rightarrow> error option \<times> jsval list \<times> world" where
  "processMatch pattern match st =
     (case st of (results, w) \<Rightarrow>
       (case (case transform (config pattern) of
                None \<Rightarrow> (Inr match, w)
              | Some t \<Rightarrow> t match None w) of
          (Inl e, w1) \<Rightarrow> (Some e, results, w1)
        | (Inr v, w1) \<Rightarrow>
            (case validate (config pattern) of
               None \<Rightarrow> (None, set_add v results, w1)
             | Some vd \<Rightarrow>
                 (case vd v w1 of
                    (Inl e, w2) \<Rightarrow> (Some e, results, w2)
                  | (Inr ok, w2) \<Rightarrow> (None, (if ok then set_add v results else results), w2)))))"

fun forEachMatch ::
  "DataPattern \<Rightarrow> jsval list \<Rightarrow> jsval list \<times> world \<Rightarrow> error option \<times> jsval list \<times> world" where
  "forEachMatch pattern [] st = (None, st)"
| "forEachMatch pattern (m # ms) st =
     (case processMatch pattern m st of
        (Some e, st') \<Rightarrow> (Some e, st')
      | (None, st') \<Rightarrow> forEachMatch pattern ms st')"

text \<open>\<open>for (const regex of pattern.patterns)\<close> over one element's text.\<close>

fun forEachRegex ::
  "DataPattern \<Rightarrow> regex list \<Rightarrow> string \<Rightarrow> jsval list \<times> world \<Rightarrow> error option \<times> jsval list \<times> world" where
  "forEachRegex pattern [] text st = (None, st)"
| "forEachRegex pattern (regex # rest) text st =
     (case regex text of
        None \<Rightarrow> forEachRegex pattern rest text st
      | Some matches \<Rightarrow>
          (case forEachMatch pattern matches st of
             (Some e, st') \<Rightarrow> (Some e, st')
           | (None, st') \<Rightarrow> forEachRegex pattern rest text st'))"

text \<open>
  The operation that reads an element: the configured attribute when it is set to a
  non-empty name, the visible text otherwise.
\<close>

definition readElement :: "browser \<Rightarrow> DataPattern \<Rightarrow> element \<Rightarrow> world \<Rightarrow> (error + string option) \<times> world" where
  "readElement driver pattern el =
     (case attribute (config pattern) of
        None \<Rightarrow> drv_string driver (GetText el)
      | Some a \<Rightarrow> if a \<noteq> [] then drv_string driver (GetAttribute el a)
                  else drv_string driver (GetText el))"

text \<open>
  The body of \<open>for (const element of elements)\<close>: every failure inside it is caught and
  the loop goes on with the next element.
\<close>

definition processElement ::
  "browser \<Rightarrow> DataPattern \<Rightarrow> element \<Rightarrow> jsval list \<times> world \<Rightarrow> jsval list \<times> world" where
  "processElement driver pattern el st =
     (case st of (results, w) \<Rightarrow>
       (case retryOperation (readElement driver pattern el) 3 1000 None w of
          (Inl e, w1) \<Rightarrow> (results, w1)
        | (Inr None, w1) \<Rightarrow> (results, w1)
        | (Inr (Some text), w1) \<Rightarrow>
            if text \<noteq> [] then snd (forEachRegex pattern (patterns pattern) text (results, w1))
            else (results, w1)))"

text \<open>The body of \<open>for (const selector of pattern.config.selectors)\<close>.\<close>

definition processSelector ::
  "browser \<Rightarrow> DataPattern \<Rightarrow> string \<Rightarrow> jsval list \<times> world \<Rightarrow> jsval list \<times> world" where
  "processSelector driver pattern selector st =
     (case st of (results, w) \<Rightarrow>
       (case retryOperation (drv_elements driver (FindElements (ByCss selector))) 3 1000 (Some driver) w of
          (Inl e, w1) \<Rightarrow> (results, w1)
        | (Inr elements, w1) \<Rightarrow>
            foldl (\<lambda>st' el. processElement driver pattern el st') (results, w1) elements))"

text \<open>
  \<open>extractDataByPattern\<close> starts from an empty set, waits for the body element (a failure
  of the wait skips every selector), and returns the set as an array. It never throws.
\<close>

definition extractDataByPattern :: "browser \<Rightarrow> DataPattern \<Rightarrow> world \<Rightarrow> jsval list \<times> world" where
  "extractDataByPattern driver pattern w =
     (case drv_unit driver (WaitLocated (ByCss ''body'') 10000) w of
        (Inl e, w1) \<Rightarrow> ([], w1)
      | (Inr u, w1) \<Rightarrow>
          foldl (\<lambda>st selector. processSelector driver pattern selector st) ([], w1)
            (selectors (config pattern)))"

section \<open>crawlAndExtract\<close>

text \<open>The bound written as the literal 10 in the loop condition.\<close>

definition MAX_PAGES :: nat where
  "MAX_PAGES = 10"

text \<open>
  The selector of the interactive elements: the template literal as written, with its
  line breaks and its indentation.
\<close>

definition interactiveSelector :: string where
  "interactiveSelector =
     [CHR 0x0A] @ ''                nav a, .nav-link, button:not([disabled]), [role=''
       @ [CHR 0x22] @ ''button'' @ [CHR 0x22] @ '']'' @ [CHR 0x0A] @ ''            ''"

text \<open>\<open>a !== b\<close> on values: \<open>NaN\<close> differs from itself.\<close>

definition strict_neq :: "jsval \<Rightarrow> jsval \<Rightarrow> bool" where
  "strict_neq a b = (a \<noteq> b \<or> a = VNaN)"

definition checkDisplayed :: "browser \<Rightarrow> element \<Rightarrow> world \<Rightarrow> (error + bool) \<times> world" where
  "checkDisplayed driver el =
     thenE (drv_unit driver (WaitVisible el 5000)) (\<lambda>u. drv_bool driver (IsDisplayed el))"

definition clickElement :: "browser \<Rightarrow> element \<Rightarrow> world \<Rightarrow> (error + unit) \<times> world" where
  "clickElement driver el =
     thenE (drv_value driver (ExecuteScript ScrollIntoView (Some el)))
       (\<lambda>v. thenE (drv_unit driver (WaitVisible el 5000)) (\<lambda>u. drv_unit driver (Click el)))"

text \<open>
  The body of \<open>for (const element of interactiveElements)\<close>: a failure of any step is
  caught and the loop goes on with the next element. When the document differs after the
  click, the page is extracted again and the values are added to the same set.
\<close>

definition interactWith ::
  "browser \<Rightarrow> DataPattern \<Rightarrow> element \<Rightarrow> jsval list \<times> world \<Rightarrow> jsval list \<times> world" where
  "interactWith driver pattern el st =
     (case st of (results, w) \<Rightarrow>
       (case retryOperation (checkDisplayed driver el) 3 1000 None w of
          (Inl e, w1) \<Rightarrow> (results, w1)
        | (Inr isDisplayed, w1) \<Rightarrow>
            if \<not> isDisplayed then (results, w1)
            else
              (case drv_value driver (ExecuteScript OuterHTML None) w1 of
                 (Inl e, w2) \<Rightarrow> (results, w2)
               | (Inr beforeState, w2) \<Rightarrow>
                   (case retryOperation (clickElement driver el) 3 1000 None w2 of
                      (Inl e, w3) \<Rightarrow> (results, w3)
                    | (Inr u, w3) \<Rightarrow>
                        (case drv_unit driver (Sleep 1000) w3 of
                           (Inl e, w4) \<Rightarrow> (results, w4)
                         | (Inr u', w4) \<Rightarrow>
                             (case drv_value driver (ExecuteScript OuterHTML None) w4 of
                                (Inl e, w5) \<Rightarrow> (results, w5)
                              | (Inr afterState, w5) \<Rightarrow>
                                  if strict_neq beforeState afterState then
                                    (case extractDataByPattern driver pattern w5 of
                                       (newResults, w6) \<Rightarrow> (add_all newResults results, w6))
                                  else (results, w5)))))))"

text \<open>
  The \<open>try\<close> block of the \<open>while\<close> loop for one URL; a failure of any step outside the
  element loop is caught and the \<open>while\<close> loop continues.
\<close>

definition visitUrl ::
  "browser \<Rightarrow> DataPattern \<Rightarrow> string \<Rightarrow> jsval list \<times> world \<Rightarrow> jsval list \<times> world" where
  "visitUrl driver pattern currentUrl st =
     (case st of (results, w) \<Rightarrow>
       (case drv_unit driver (Get currentUrl) w of
          (Inl e, w1) \<Rightarrow> (results, w1)
        | (Inr u1, w1) \<Rightarrow>
            (case drv_unit driver (WaitLocated (ByTagName ''body'') 10000) w1 of
               (Inl e, w2) \<Rightarrow> (results, w2)
             | (Inr u2, w2) \<Rightarrow>
                 (case drv_unit driver (Sleep 2000) w2 of
                    (Inl e, w3) \<Rightarrow> (results, w3)
                  | (Inr u3, w3) \<Rightarrow>
                      (case retryOperation
                              (\<lambda>w'. case extractDataByPattern driver pattern w' of
                                       (rs, w'') \<Rightarrow> (Inr rs, w''))
                              3 1000 (Some driver) w3 of
                         (Inl e, w4) \<Rightarrow> (results, w4)
                       | (Inr pageResults, w4) \<Rightarrow>
                           (case drv_elements driver (FindElements (ByCss interactiveSelector)) w4 of
                              (Inl e, w5) \<Rightarrow> (add_all pageResults results, w5)
                            | (Inr interactiveElements, w5) \<Rightarrow>
                                foldl (\<lambda>st' el. interactWith driver pattern el st')
                                  (add_all pageResults results, w5) interactiveElements))))))"

text \<open>The three local variables of \<open>crawlAndExtract\<close>.\<close>

record crawl_state =
  cs_results :: "jsval list"
  visitedUrls :: "string list"
  urlsToVisit :: "string list"

definition crawl_init :: "string \<Rightarrow> crawl_state" where
  "crawl_init baseUrl = \<lparr>cs_results = [], visitedUrls = [baseUrl], urlsToVisit = [baseUrl]\<rparr>"

text \<open>One iteration of the \<open>while\<close> loop: \<open>shift\<close> the first URL and visit it.\<close>

definition crawl_step ::
  "browser \<Rightarrow> DataPattern \<Rightarrow> crawl_state \<times> world \<Rightarrow> crawl_state \<times> world" where
  "crawl_step driver pattern st =
     (case st of (cs, w) \<Rightarrow>
       (case visitUrl driver pattern (hd (urlsToVisit cs)) (cs_results cs, w) of
          (rs, w') \<Rightarrow> (cs\<lparr>cs_results := rs, urlsToVisit := tl (urlsToVisit cs)\<rparr>, w')))"

definition crawl_continues :: "crawl_state \<Rightarrow> bool" where
  "crawl_continues cs = (urlsToVisit cs \<noteq> [] \<and> length (visitedUrls cs) < MAX_PAGES)"

function crawl_loop ::
  "browser \<Rightarrow> DataPattern \<Rightarrow> crawl_state \<times> world \<Rightarrow> crawl_state \<times> world" where
  "crawl_loop driver pattern st =
     (if crawl_continues (fst st) then crawl_loop driver pattern (crawl_step driver pattern st)
      else st)"
  by pat_completeness auto
termination
proof (relation "measure (\<lambda>(driver, pattern, st). length (urlsToVisit (fst st)))")
  show "wf (measure (\<lambda>(driver, pattern, st). length (urlsToVisit (fst st))))"
    by simp
next
  fix driver :: browser and pattern :: DataPattern and st :: "crawl_state \<times> world"
  assume c: "crawl_continues (fst st)"
  obtain cs w where st: "st = (cs, w)" by (cases st)
  from c st have "urlsToVisit cs \<noteq> []" by (simp add: crawl_continues_def)
  then have "length (tl (urlsToVisit cs)) < length (urlsToVisit cs)" by (cases "urlsToVisit cs") simp_all
  then show "((driver, pattern, crawl_step driver pattern st), (driver, pattern, st))
               \<in> measure (\<lambda>(driver, pattern, st). length (urlsToVisit (fst st)))"
    using st by (simp add: crawl_step_def split: prod.splits)
qed

declare crawl_loop.simps [simp del]

definition crawlAndExtract :: "browser \<Rightarrow> string \<Rightarrow> DataPattern \<Rightarrow> world \<Rightarrow> jsval list \<times> world" where
  "crawlAndExtract driver baseUrl pattern w =
     (case crawl_loop driver pattern (crawl_init baseUrl, w) of
        (cs, w') \<Rightarrow> (cs_results cs, w'))"

section \<open>validateTwitterUsername\<close>

text \<open>
  The \<open>try\<close> block on a cache miss: remember the current window, open a new one and
  switch to the last handle (\<open>undefined\<close> when the list is empty), load the profile page,
  sleep, evaluate the profile check, close the window and switch back. Calling a method
  of a driver that is \<open>undefined\<close> is a TypeError.
\<close>

definition lastWindow :: "string list \<Rightarrow> string option" where
  "lastWindow windows = (if windows = [] then None else Some (last windows))"

definition checkProfilePage :: "browser option \<Rightarrow> string \<Rightarrow> world \<Rightarrow> (error + jsval) \<times> world" where
  "checkProfilePage driver username =
     (case driver of
        None \<Rightarrow> (\<lambda>w. (Inl (TypeError ''getWindowHandle''), w))
      | Some b \<Rightarrow>
          thenE (drv_string b GetWindowHandle) (\<lambda>mainWindow.
          thenE (drv_value b (ExecuteScript WindowOpen None)) (\<lambda>opened.
          thenE (drv_strings b GetAllWindowHandles) (\<lambda>windows.
          thenE (drv_unit b (SwitchToWindow (lastWindow windows))) (\<lambda>u1.
          thenE (drv_unit b (Get (''https://x.com/'' @ username))) (\<lambda>u2.
          thenE (drv_unit b (Sleep 2000)) (\<lambda>u3.
          thenE (drv_value b (ExecuteScript CheckProfile None)) (\<lambda>isValid.
          thenE (drv_unit b Close) (\<lambda>u4.
          thenE (drv_unit b (SwitchToWindow mainWindow)) (\<lambda>u5.
          returnE isValid))))))))))"

definition cache_set :: "string \<Rightarrow> bool \<Rightarrow> world \<Rightarrow> world" where
  "cache_set username b w = w\<lparr>validatedProfiles := (validatedProfiles w)(username \<mapsto> b)\<rparr>"

text \<open>
  A cached handle is answered from the map. Otherwise the page check runs; its answer,
  or \<open>false\<close> when it threw, is stored under the handle and returned.
\<close>

definition validateTwitterUsername :: "string \<Rightarrow> browser option \<Rightarrow> world \<Rightarrow> bool \<times> world" where
  "validateTwitterUsername username driver w =
     (case validatedProfiles w username of
        Some b \<Rightarrow> (b, w)
      | None \<Rightarrow>
          (case checkProfilePage driver username w of
             (Inr isValid, w1) \<Rightarrow> (truthy isValid, cache_set username (truthy isValid) w1)
           | (Inl e, w1) \<Rightarrow> (False, cache_set username False w1)))"

section \<open>Synthesized patterns\<close>

text \<open>
  What \<open>JSON.parse\<close> returns, together with the function objects that \<open>new Function\<close>
  puts in place of a source string (parameter names and body).
\<close>

datatype json =
    JNull
  | JBool bool
  | JNum real
  | JStr string
  | JArr "json list"
  | JObj "(string \<times> json) list"
  | JFun "string list" string

fun json_truthy :: "json \<Rightarrow> bool" where
  "json_truthy JNull = False"
| "json_truthy (JBool b) = b"
| "json_truthy (JNum r) = (r \<noteq> 0)"
| "json_truthy (JStr s) = (s \<noteq> [])"
| "json_truthy (JArr xs) = True"
| "json_truthy (JObj kvs) = True"
| "json_truthy (JFun ps body) = True"

text \<open>
  Reading a property of a value that is not \<open>null\<close>; \<open>None\<close> is \<open>undefined\<close>. Of the
  names the program reads, only \<open>name\<close> exists on a function object.
\<close>

fun get_prop :: "json \<Rightarrow> string \<Rightarrow> json option" where
  "get_prop (JObj kvs) k = map_of kvs k"
| "get_prop (JFun ps body) k = (if k = ''name'' then Some (JStr ''anonymous'') else None)"
| "get_prop j k = None"

definition prop_truthy :: "json \<Rightarrow> string \<Rightarrow> bool" where
  "prop_truthy j k = (case get_prop j k of None \<Rightarrow> False | Some v \<Rightarrow> json_truthy v)"

text \<open>Assignment to a key of an object: an existing key keeps its place, a new one goes last.\<close>

fun assoc_set :: "'k \<Rightarrow> 'v \<Rightarrow> ('k \<times> 'v) list \<Rightarrow> ('k \<times> 'v) list" where
  "assoc_set k v [] = [(k, v)]"
| "assoc_set k v ((k', v') # kvs) =
     (if k' = k then (k, v) # kvs else (k', v') # assoc_set k v kvs)"

fun set_prop :: "json \<Rightarrow> string \<Rightarrow> json \<Rightarrow> json" where
  "set_prop (JObj kvs) k v = JObj (assoc_set k v kvs)"
| "set_prop j k v = j"

text \<open>
  \<open>if (typeof config[k] === 'string') config[k] = new Function(...params, config[k])\<close>.
  Whether a body compiles is decided by the language (\<open>compiles\<close>); otherwise
  \<open>new Function\<close> throws a SyntaxError.
\<close>

definition compileField ::
  "(string list \<Rightarrow> string \<Rightarrow> bool) \<Rightarrow> string list \<Rightarrow> string \<Rightarrow> json \<Rightarrow> error + json" where
  "compileField compiles params k cfg =
     (case get_prop cfg k of
        Some (JStr body) \<Rightarrow>
          if compiles params body then Inr (set_prop cfg k (JFun params body))
          else Inl (Error ''SyntaxError'' body)
      | _ \<Rightarrow> Inr cfg)"

text \<open>
  \<open>validateAndTransformPattern\<close>: \<open>Inr None\<close> is the answer \<open>null\<close>. Reading a property
  of \<open>null\<close> is a TypeError.
\<close>

definition validateAndTransformPattern ::
  "(string list \<Rightarrow> string \<Rightarrow> bool) \<Rightarrow> json \<Rightarrow> error + json option" where
  "validateAndTransformPattern compiles pattern =
     (if pattern = JNull then Inl (TypeError ''name'')
      else if \<not> prop_truthy pattern ''name'' \<or> \<not> prop_truthy pattern ''patterns''
              \<or> \<not> prop_truthy pattern ''config'' then Inr None
      else
        (case compileField compiles [''value'', ''driver''] ''transform'' (the (get_prop pattern ''config'')) of
           Inl e \<Rightarrow> Inl e
         | Inr cfg1 \<Rightarrow>
             (case compileField compiles [''value''] ''validate'' cfg1 of
                Inl e \<Rightarrow> Inl e
              | Inr cfg2 \<Rightarrow> Inr (Some (set_prop pattern ''config'' cfg2)))))"

section \<open>The registry and the action handler\<close>

text \<open>
  The collaborators of the handler that are not part of this program: the settings of
  the runtime, the text generator, and the language built-ins it relies on (lower-casing,
  \<open>new Function\<close>, \<open>JSON.parse\<close>, the cast of a parsed specification to a
  \<open>DataPattern\<close>, \<open>text.match(urlRegex)\<close>, and the test of lines 524-526 whether a
  lower-cased text mentions a registry entry by key, by name or by one of its regular
  expressions).

  The test \<open>mentions\<close> can throw: \<open>p.test\<close> is a TypeError when an entry of \<open>patterns\<close>
  is a string, as in a synthesized pattern, which the cast leaves as it was parsed
  (\<open>text.match\<close> uses such a string as the regular expression it spells). The answer of
  \<open>mentions\<close> is the one at the \<open>lastIndex\<close> that the regular expressions have when
  the handler is called; a regular expression with the \<open>g\<close> flag keeps its \<open>lastIndex\<close>
  from one call of the handler to the next, so the host of a later call may answer
  differently.
\<close>

datatype llm_request = AskDataType string | AskPattern string

record host =
  getSetting :: "string \<Rightarrow> string option"
  generateText :: "llm_request \<Rightarrow> error + jsval"
  toLowerCase :: "string \<Rightarrow> string"
  mentions :: "string \<Rightarrow> string \<Rightarrow> DataPattern \<Rightarrow> error + bool"
  compiles :: "string list \<Rightarrow> string \<Rightarrow> bool"
  JSON_parse :: "string \<Rightarrow> error + json"
  asDataPattern :: "json \<Rightarrow> DataPattern"
  matchUrl :: "string \<Rightarrow> string list option"

text \<open>
  \<open>dataPatterns\<close> is an object used as a dictionary, kept here in insertion order.
  \<open>dataPatterns[k]\<close> is truthy for an own key and for a name inherited from
  \<open>Object.prototype\<close>.
\<close>

type_synonym registry = "(string \<times> DataPattern) list"

definition objectPrototypeKeys :: "string list" where
  "objectPrototypeKeys =
     [''constructor'', ''__defineGetter__'', ''__defineSetter__'', ''hasOwnProperty'',
      ''__lookupGetter__'', ''__lookupSetter__'', ''isPrototypeOf'', ''propertyIsEnumerable'',
      ''toString'', ''valueOf'', ''__proto__'', ''toLocaleString'']"

definition registry_has :: "registry \<Rightarrow> string \<Rightarrow> bool" where
  "registry_has dataPatterns k = (map_of dataPatterns k \<noteq> None \<or> k \<in> set objectPrototypeKeys)"

text \<open>
  \<open>generateDataPattern\<close>: every failure (of the generator, of a response that is not a
  string, of parsing, of the validation) is caught and answered with \<open>null\<close>.
\<close>

definition generateDataPattern :: "host \<Rightarrow> string \<Rightarrow> json option" where
  "generateDataPattern h dataType =
     (case generateText h (AskPattern dataType) of
        Inl e \<Rightarrow> None
      | Inr (VStr response) \<Rightarrow>
          (case JSON_parse h response of
             Inl e \<Rightarrow> None
           | Inr pattern \<Rightarrow>
               (case validateAndTransformPattern (compiles h) pattern of
                  Inl e \<Rightarrow> None
                | Inr r \<Rightarrow> r))
      | Inr other \<Rightarrow> None)"

text \<open>
  \<open>for (const [key, pattern] of Object.entries(dataPatterns))\<close>: the keys of the entries
  that the text mentions, in the order of the registry. The first test that throws ends
  the loop and the function.
\<close>

fun scanTypes :: "host \<Rightarrow> string \<Rightarrow> registry \<Rightarrow> error + string list" where
  "scanTypes h text [] = Inr []"
| "scanTypes h text ((key, pattern) # rest) =
     (case mentions h text key pattern of
        Inl e \<Rightarrow> Inl e
      | Inr hit \<Rightarrow>
          (case scanTypes h text rest of
             Inl e \<Rightarrow> Inl e
           | Inr types \<Rightarrow> Inr (if hit then key # types else types)))"

text \<open>
  \<open>determineDataTypes\<close> returns the keys found and the registry, which gains an entry
  when a proposed unknown key gets a synthesized pattern. A failure of the scan or of the
  first call of the generator is not caught here.
\<close>

definition determineDataTypes :: "host \<Rightarrow> registry \<Rightarrow> string \<Rightarrow> error + string list \<times> registry" where
  "determineDataTypes h dataPatterns text0 =
     (let text = toLowerCase h text0
      in case scanTypes h text dataPatterns of
           Inl e \<Rightarrow> Inl e
         | Inr types \<Rightarrow>
             if types = [] then
               (case generateText h (AskDataType text) of
                  Inl e \<Rightarrow> Inl e
                | Inr (VStr dataType) \<Rightarrow>
                    if \<not> registry_has dataPatterns dataType then
                      (case generateDataPattern h dataType of
                         None \<Rightarrow> Inr (types, dataPatterns)
                       | Some newPattern \<Rightarrow>
                           Inr (types @ [dataType],
                                assoc_set dataType (asDataPattern h newPattern) dataPatterns))
                    else Inr (types, dataPatterns)
                | Inr other \<Rightarrow> Inr (types, dataPatterns))
             else Inr (types, dataPatterns))"

definition extractUrlFromMessage :: "host \<Rightarrow> string \<Rightarrow> string option" where
  "extractUrlFromMessage h text =
     (case matchUrl h text of
        None \<Rightarrow> None
      | Some matches \<Rightarrow> (case matches of [] \<Rightarrow> None | m # rest \<Rightarrow> Some m))"

text \<open>
  \<open>extractUrlFromMessage(text) || runtime.getSetting("WEBSITE_URL")\<close>, with \<open>None\<close> for a
  falsy result (nothing found and nothing, or the empty string, configured).
\<close>

definition nonEmpty :: "string option \<Rightarrow> string option" where
  "nonEmpty x = (case x of None \<Rightarrow> None | Some s \<Rightarrow> if s = [] then None else Some s)"

definition websiteUrl :: "host \<Rightarrow> string \<Rightarrow> string option" where
  "websiteUrl h text =
     (case nonEmpty (extractUrlFromMessage h text) of
        Some u \<Rightarrow> Some u
      | None \<Rightarrow> nonEmpty (getSetting h ''WEBSITE_URL''))"

text \<open>
  What the callback receives: the results with the seed URL, or the \<open>error\<close> field of a
  failure (the chat text built around them is not modelled).
\<close>

datatype reply = Extracted string "(string \<times> jsval list) list" | Failed string

definition callbackWith :: "bool \<Rightarrow> reply \<Rightarrow> reply list" where
  "callbackWith callback r = (if callback then [r] else [])"

text \<open>
  The \<open>catch\<close> block of the handler: the message of the error is read only when there
  is a callback, and reading \<open>message\<close> of \<open>undefined\<close> is a TypeError; without a
  callback the block returns \<open>false\<close>.
\<close>

definition handlerCatch :: "bool \<Rightarrow> error \<Rightarrow> (error + bool) \<times> reply list" where
  "handlerCatch callback e =
     (if callback then
        (case e of
           Error nm msg \<Rightarrow> (Inr False, [Failed msg])
         | Undefined_thrown \<Rightarrow> (Inl (TypeError ''message''), []))
      else (Inr False, []))"

text \<open>\<open>for (const dataType of dataTypes)\<close>: crawl for every key that has a pattern.\<close>

fun crawlEach ::
  "browser \<Rightarrow> string \<Rightarrow> registry \<Rightarrow> string list \<Rightarrow> (string \<times> jsval list) list \<times> world
     \<Rightarrow> (string \<times> jsval list) list \<times> world" where
  "crawlEach driver url dataPatterns [] st = st"
| "crawlEach driver url dataPatterns (dataType # rest) st =
     (case st of (results, w) \<Rightarrow>
       (case map_of dataPatterns dataType of
          None \<Rightarrow> crawlEach driver url dataPatterns rest (results, w)
        | Some pattern \<Rightarrow>
            (case crawlAndExtract driver url pattern w of
               (vals, w') \<Rightarrow>
                 crawlEach driver url dataPatterns rest (assoc_set dataType vals results, w'))))"

text \<open>
  The handler of the action. \<open>callback\<close> tells whether a callback was passed; the answer
  is the returned boolean (or the error the handler rejects with), the replies given to
  the callback, the registry and the world. The driver is created by the command
  \<open>Build\<close> and, once created, is quit on every path; a failure of \<open>quit\<close> is swallowed.
\<close>

definition handler ::
  "host \<Rightarrow> browser \<Rightarrow> bool \<Rightarrow> registry \<Rightarrow> string \<Rightarrow> world
     \<Rightarrow> (error + bool) \<times> reply list \<times> registry \<times> world" where
  "handler h b callback dataPatterns text w =
     (case determineDataTypes h dataPatterns text of
        Inl e \<Rightarrow>
          (case handlerCatch callback e of (r, replies) \<Rightarrow> (r, replies, dataPatterns, w))
      | Inr (dataTypes, dataPatterns1) \<Rightarrow>
          if dataTypes = [] then
            (Inr False, callbackWith callback (Failed ''Unclear data type request''), dataPatterns1, w)
          else
            (case websiteUrl h text of
               None \<Rightarrow>
                 (case handlerCatch callback (Error ''Error'' ''No website URL provided or configured'') of
                    (r, replies) \<Rightarrow> (r, replies, dataPatterns1, w))
             | Some url \<Rightarrow>
                 (case drv_unit b Build w of
                    (Inl e, w1) \<Rightarrow>
                      (case handlerCatch callback e of
                         (r, replies) \<Rightarrow> (r, replies, dataPatterns1, w1))
                  | (Inr u1, w1) \<Rightarrow>
                      (case drv_unit b (Get url) w1 of
                         (Inl e, w2) \<Rightarrow>
                           (case handlerCatch callback e of
                              (r, replies) \<Rightarrow> (r, replies, dataPatterns1, snd (drv_unit b Quit w2)))
                       | (Inr u2, w2) \<Rightarrow>
                           (case crawlEach b url dataPatterns1 dataTypes ([], w2) of
                              (results, w3) \<Rightarrow>
                                (Inr True, callbackWith callback (Extracted url results),
                                 dataPatterns1, snd (drv_unit b Quit w3)))))))"

section \<open>Observations used in the results\<close>

text \<open>The URLs the driver was told to load, in order, as read from the command log.\<close>

definition navigations :: "world \<Rightarrow> string list" where
  "navigations w = concat (map (\<lambda>c. case c of Get url \<Rightarrow> [url] | _ \<Rightarrow> []) (trace w))"

text \<open>
  How often the profile page of a handle was loaded, and a sequence of calls of
  \<open>validateTwitterUsername\<close> made one after the other in one process.
\<close>

definition profileLoads :: "string \<Rightarrow> world \<Rightarrow> nat" where
  "profileLoads handle w = count_list (trace w) (Get (''https://x.com/'' @ handle))"

fun validateEach :: "(string \<times> browser option) list \<Rightarrow> world \<Rightarrow> world" where
  "validateEach [] w = w"
| "validateEach ((username, driver) # rest) w =
     validateEach rest (snd (validateTwitterUsername username driver w))"

text \<open>
  The invariant of the crawl loop: at most \<open>MAX_PAGES\<close> visited URLs, the seed being the
  first of them, and every URL of the frontier is a visited one.
\<close>

definition crawl_inv :: "string \<Rightarrow> crawl_state \<Rightarrow> bool" where
  "crawl_inv seed cs =
     (length (visitedUrls cs) \<le> MAX_PAGES \<and> take 1 (visitedUrls cs) = [seed]
      \<and> set (urlsToVisit cs) \<subseteq> set (visitedUrls cs))"

section \<open>Example environments\<close>

text \<open>Concrete worlds, browsers and patterns on which the results below are evaluated.\<close>

definition fresh_world :: world where
  "fresh_world = \<lparr>trace = [], validatedProfiles = Map.empty, allocated = 0\<rparr>"






definition known_world :: world where
  "known_world = \<lparr>trace = [], validatedProfiles = [''jack'' \<mapsto> True], allocated = 0\<rparr>"

definition unreachable :: browser where
  "unreachable = \<lparr>on_unit = (\<lambda>tr c. case c of Get url \<Rightarrow> Some (Error ''WebDriverError'' ''unreachable'') | _ \<Rightarrow> None),
            on_elements = (\<lambda>tr c. Inr []),
            on_string = (\<lambda>tr c. Inr (Some ''main'')),
            on_strings = (\<lambda>tr c. Inr [''main'', ''tab'']),
            on_bool = (\<lambda>tr c. Inr True),
            on_value = (\<lambda>tr c. Inr (VBool True))\<rparr>"

definition link_text :: regex where
  "link_text text = (if text = [] then None else Some [VStr text])"

definition one_link :: browser where
  "one_link = \<lparr>on_unit = (\<lambda>tr c. None),
            on_elements = (\<lambda>tr c. if c = FindElements (ByCss ''a'') then Inr [1] else Inr []),
            on_string = (\<lambda>tr c. Inr (Some ''x.com/ghost'')),
            on_strings = (\<lambda>tr c. Inr []),
            on_bool = (\<lambda>tr c. Inr True),
            on_value = (\<lambda>tr c. Inr (VStr ''html''))\<rparr>"

definition reject :: "jsval \<Rightarrow> browser option \<Rightarrow> world \<Rightarrow> (error + jsval) \<times> world" where
  "reject m d w = (Inr VNull, w)"

definition promised :: "jsval \<Rightarrow> browser option \<Rightarrow> world \<Rightarrow> (error + jsval) \<times> world" where
  "promised m d w = (Inr (VPromise (allocated w)), w\<lparr>allocated := Suc (allocated w)\<rparr>)"

definition rejecting_pattern :: DataPattern where
  "rejecting_pattern =
     \<lparr>name = ''Profiles'', patterns = [link_text],
      config = \<lparr>selectors = [''a''], attribute = None, transform = Some reject, validate = None\<rparr>\<rparr>"

definition async_pattern :: DataPattern where
  "async_pattern =
     \<lparr>name = ''Profiles'', patterns = [link_text],
      config = \<lparr>selectors = [''a''], attribute = None, transform = Some promised, validate = None\<rparr>\<rparr>"

definition seed :: string where
  "seed = ''https://example.com''"

definition widget_spec :: json where
  "widget_spec = JObj [(''name'', JStr ''Widgets''), (''patterns'', JArr []), (''config'', JObj [])]"

definition nameless_spec :: json where
  "nameless_spec = JObj [(''name'', JStr ''''), (''patterns'', JArr [JStr ''w+'']),
                         (''config'', JObj [(''selectors'', JArr [JStr ''p''])])]"

definition no_pattern :: DataPattern where
  "no_pattern =
     \<lparr>name = ''Widgets'', patterns = [],
      config = \<lparr>selectors = [], attribute = None, transform = None, validate = None\<rparr>\<rparr>"

definition eager_host :: host where
  "eager_host =
     \<lparr>getSetting = (\<lambda>k. None),
      generateText = (\<lambda>q. case q of AskDataType t \<Rightarrow> Inr (VStr ''widgets'')
                                    | AskPattern k \<Rightarrow> Inr (VStr ''widget specification'')),
      toLowerCase = (\<lambda>s. s),
      mentions = (\<lambda>t k p. Inr False),
      compiles = (\<lambda>ps body. True),
      JSON_parse = (\<lambda>s. Inr widget_spec),
      asDataPattern = (\<lambda>j. no_pattern),
      matchUrl = (\<lambda>t. None)\<rparr>"

definition strict_host :: host where
  "strict_host = eager_host\<lparr>JSON_parse := (\<lambda>s. Inr nameless_spec)\<rparr>"


definition plain_pattern :: DataPattern where
  "plain_pattern =
     \<lparr>name = ''Email Addresses'', patterns = [link_text],
      config = \<lparr>selectors = [''a''], attribute = None, transform = None, validate = None\<rparr>\<rparr>"





section \<open>Results\<close>

subsection \<open>Shared lemmas\<close>

lemma thenE_keeps:
  assumes "\<And>w. G (snd (m w)) = G w"
    and "\<And>x w. G (snd (f x w)) = G w"
  shows "G (snd (thenE m f w)) = G w"
proof (cases "m w")
  case (Pair r w1)
  then show ?thesis
    using assms(1) [of w] assms(2) by (cases r) (simp_all add: thenE_def)
qed

subsection \<open>retryOperation\<close>





subsection \<open>validateTwitterUsername\<close>

lemma drv_cache [simp]:
  "validatedProfiles (snd (drv_unit b c w)) = validatedProfiles w"
  "validatedProfiles (snd (drv_string b c w)) = validatedProfiles w"
  "validatedProfiles (snd (drv_strings b c w)) = validatedProfiles w"
  "validatedProfiles (snd (drv_value b c w)) = validatedProfiles w"
  by (simp_all add: drv_unit_def drv_string_def drv_strings_def drv_value_def issue_def)

lemma thenE_cache:
  assumes "\<And>w. validatedProfiles (snd (m w)) = validatedProfiles w"
    and "\<And>x w. validatedProfiles (snd (f x w)) = validatedProfiles w"
  shows "validatedProfiles (snd (thenE m f w)) = validatedProfiles w"
  using assms by (rule thenE_keeps)

lemma checkProfilePage_cache:
  "validatedProfiles (snd (checkProfilePage driver username w)) = validatedProfiles w"
proof (cases driver)
  case None
  then show ?thesis by (simp add: checkProfilePage_def)
next
  case (Some b)
  then show ?thesis
    unfolding checkProfilePage_def
    by (simp add: thenE_cache returnE_def)
qed

lemma validateTwitterUsername_hit:
  "validatedProfiles w username = Some b \<Longrightarrow> validateTwitterUsername username driver w = (b, w)"
  by (simp add: validateTwitterUsername_def)

lemma validateTwitterUsername_stores:
  "validatedProfiles (snd (validateTwitterUsername username driver w)) username
     = Some (fst (validateTwitterUsername username driver w))"
  by (simp add: validateTwitterUsername_def cache_set_def split: option.splits prod.splits sum.splits)

lemma validateTwitterUsername_keeps:
  assumes "validatedProfiles w other = Some c"
  shows "validatedProfiles (snd (validateTwitterUsername username driver w)) other = Some c"
proof (cases "validatedProfiles w username")
  case (Some b)
  then show ?thesis using assms by (simp add: validateTwitterUsername_def)
next
  case None
  then have ne: "other \<noteq> username" using assms by auto
  obtain r w1 where c: "checkProfilePage driver username w = (r, w1)"
    by (cases "checkProfilePage driver username w")
  then have "validatedProfiles w1 = validatedProfiles w"
    using checkProfilePage_cache [of driver username w] by simp
  then show ?thesis using None c ne assms
    by (cases r) (simp_all add: validateTwitterUsername_def cache_set_def)
qed

lemma thenE_loads:
  fixes G :: "world \<Rightarrow> nat"
  assumes "\<And>w. G (snd (m w)) \<le> G w + a"
    and "\<And>x w. G (snd (f x w)) \<le> G w + b"
  shows "G (snd (thenE m f w)) \<le> G w + (a + b)"
proof (cases "m w")
  case (Pair r w1)
  have 1: "G w1 \<le> G w + a" using assms(1) [of w] Pair by simp
  show ?thesis
  proof (cases r)
    case (Inl e)
    then show ?thesis using Pair 1 by (simp add: thenE_def)
  next
    case (Inr x)
    have "G (snd (f x w1)) \<le> G w1 + b" by (rule assms(2))
    then show ?thesis using Pair Inr 1 by (simp add: thenE_def)
  qed
qed

lemma checkProfilePage_loads:
  "profileLoads handle (snd (checkProfilePage driver username w))
     \<le> profileLoads handle w + (if username = handle then 1 else 0)"
proof (cases driver)
  case None
  then show ?thesis by (simp add: checkProfilePage_def)
next
  case (Some b)
  have "profileLoads handle (snd (checkProfilePage (Some b) username w))
          \<le> profileLoads handle w
              + (0 + (0 + (0 + (0 + ((if username = handle then 1 else 0) + (0 + (0 + (0 + (0 + 0)))))))))"
    unfolding checkProfilePage_def option.case
    by (intro thenE_loads [where G = "profileLoads handle"])
       (simp_all add: drv_unit_def drv_string_def drv_strings_def drv_value_def issue_def
          returnE_def profileLoads_def)
  then show ?thesis using Some by simp
qed

lemma validateTwitterUsername_loads:
  assumes "validatedProfiles w handle = None \<longrightarrow> profileLoads handle w = 0"
    and "profileLoads handle w \<le> 1"
  shows "(validatedProfiles (snd (validateTwitterUsername username driver w)) handle = None
            \<longrightarrow> profileLoads handle (snd (validateTwitterUsername username driver w)) = 0)
       \<and> profileLoads handle (snd (validateTwitterUsername username driver w)) \<le> 1"
proof (cases "validatedProfiles w username")
  case (Some b)
  then show ?thesis using assms by (simp add: validateTwitterUsername_def)
next
  case None
  obtain r w1 where c: "checkProfilePage driver username w = (r, w1)"
    by (cases "checkProfilePage driver username w")
  have l: "profileLoads handle w1 \<le> profileLoads handle w + (if username = handle then 1 else 0)"
    using checkProfilePage_loads [of handle driver username w] c by simp
  have k: "validatedProfiles w1 = validatedProfiles w"
    using checkProfilePage_cache [of driver username w] c by simp
  have s: "snd (validateTwitterUsername username driver w)
             = cache_set username (case r of Inl e \<Rightarrow> False | Inr isValid \<Rightarrow> truthy isValid) w1"
    using None c by (cases r) (simp_all add: validateTwitterUsername_def)
  have p: "profileLoads handle (cache_set username x w1) = profileLoads handle w1" for x
    by (simp add: profileLoads_def cache_set_def)
  show ?thesis
  proof (cases "username = handle")
    case True
    then show ?thesis using s p l None assms by (simp add: cache_set_def)
  next
    case False
    then show ?thesis using s p l k assms by (auto simp add: cache_set_def)
  qed
qed

lemma validateEach_loads:
  "(validatedProfiles w handle = None \<longrightarrow> profileLoads handle w = 0) \<Longrightarrow> profileLoads handle w \<le> 1 \<Longrightarrow>
   profileLoads handle (validateEach calls w) \<le> 1"
proof (induction calls arbitrary: w)
  case Nil
  then show ?case by simp
next
  case (Cons call calls)
  obtain username driver where call: "call = (username, driver)" by (cases call)
  show ?case
    using Cons.IH [of "snd (validateTwitterUsername username driver w)"]
      validateTwitterUsername_loads [OF Cons.prems, of username driver] call
    by simp
qed

text \<open>
  C4. A handle that is in the cache is answered with the cached boolean and the world,
  and so the log of driver commands, is left as it was, whatever driver is passed. After
  any call the handle is in the cache, so that a second call with the same handle returns
  the same answer without any command to the browser. A call never changes the entry of
  another handle, so this stays true after any number of calls in between. A call that is
  given no driver sends no command at all. In any sequence of calls, started where the
  profile page of a handle has not been loaded, that page is loaded at most once.
\<close>

theorem validateTwitterUsername_at_most_once:
  "(validatedProfiles w username = Some b \<longrightarrow> validateTwitterUsername username driver w = (b, w))
   \<and> validateTwitterUsername username driver' (snd (validateTwitterUsername username driver w))
       = (fst (validateTwitterUsername username driver w), snd (validateTwitterUsername username driver w))
   \<and> (validatedProfiles w other = Some c \<longrightarrow>
        validatedProfiles (snd (validateTwitterUsername username driver w)) other = Some c)
   \<and> trace (snd (validateTwitterUsername username None w)) = trace w
   \<and> (profileLoads handle w = 0 \<longrightarrow> profileLoads handle (validateEach calls w) \<le> 1)"
proof -
  have "trace (snd (validateTwitterUsername username None w)) = trace w"
    by (simp add: validateTwitterUsername_def checkProfilePage_def cache_set_def split: option.splits)
  moreover have "profileLoads handle w = 0 \<Longrightarrow> profileLoads handle (validateEach calls w) \<le> 1"
    using validateEach_loads [of w handle calls] by simp
  ultimately show ?thesis
    using validateTwitterUsername_hit [OF validateTwitterUsername_stores [of username driver w], of driver']
      validateTwitterUsername_hit [of w username b driver]
      validateTwitterUsername_keeps [of w other c username driver]
    by simp
qed

text \<open>
  The theorem at a world where \<open>jack\<close> is cached as valid: the answer comes from the cache
  with the world unchanged, and validating \<open>ghost\<close> leaves the entry of \<open>jack\<close> alone.
\<close>

theorem validateTwitterUsername_at_most_once_witness:
  "validateTwitterUsername ''jack'' (Some unreachable) known_world = (True, known_world)
   \<and> validatedProfiles (snd (validateTwitterUsername ''ghost'' (Some unreachable) known_world)) ''jack''
       = Some True
   \<and> profileLoads ''ghost''
        (validateEach [(''ghost'', Some one_link), (''jack'', Some one_link), (''ghost'', Some one_link)]
           known_world) \<le> 1"
proof -
  have 1: "validatedProfiles known_world ''jack'' = Some True" by (simp add: known_world_def)
  have 2: "profileLoads ''ghost'' known_world = 0" by (simp add: profileLoads_def known_world_def)
  note th = validateTwitterUsername_at_most_once [where w = known_world and b = True
      and driver = "Some unreachable" and other = "''jack''" and c = True and handle = "''ghost''"
      and calls = "[(''ghost'', Some one_link), (''jack'', Some one_link), (''ghost'', Some one_link)]"]
  have 3: "validateTwitterUsername ''jack'' (Some unreachable) known_world = (True, known_world)"
    using th [where username = "''jack''"] 1 by blast
  have 4: "validatedProfiles (snd (validateTwitterUsername ''ghost'' (Some unreachable) known_world)) ''jack''
             = Some True"
    using th [where username = "''ghost''"] 1 by blast
  have 5: "profileLoads ''ghost''
        (validateEach [(''ghost'', Some one_link), (''jack'', Some one_link), (''ghost'', Some one_link)]
           known_world) \<le> 1"
    using th [where username = "''ghost''"] 2 by blast
  show ?thesis using 3 4 5 by simp
qed

text \<open>
  C5. When the page check of a handle that is not cached throws (a navigation error, a
  script error, or any other), the routine returns \<open>false\<close>, stores \<open>false\<close> under
  the handle, and every later call for the handle returns \<open>false\<close> from the cache
  without touching the browser.
\<close>

theorem validateTwitterUsername_error_is_cached:
  assumes "validatedProfiles w username = None"
    and "fst (checkProfilePage driver username w) = Inl e"
  shows "fst (validateTwitterUsername username driver w) = False
     \<and> validatedProfiles (snd (validateTwitterUsername username driver w)) username = Some False
     \<and> validateTwitterUsername username driver' (snd (validateTwitterUsername username driver w))
         = (False, snd (validateTwitterUsername username driver w))"
proof -
  obtain r w1 where c: "checkProfilePage driver username w = (r, w1)"
    by (cases "checkProfilePage driver username w")
  with assms(2) have r: "r = Inl e" by simp
  have 1: "validateTwitterUsername username driver w = (False, cache_set username False w1)"
    using assms(1) c r by (simp add: validateTwitterUsername_def)
  have 2: "validatedProfiles (cache_set username False w1) username = Some False"
    by (simp add: cache_set_def)
  show ?thesis using 1 2 validateTwitterUsername_hit [OF 2, of driver'] by simp
qed

text \<open>
  The theorem at a browser that cannot load the profile page (a navigation error) and at
  a call without a driver (a TypeError): both answers are \<open>false\<close> and are cached.
\<close>

theorem validateTwitterUsername_error_is_cached_witness:
  "fst (checkProfilePage (Some unreachable) ''ghost'' fresh_world) = Inl (Error ''WebDriverError'' ''unreachable'')
   \<and> fst (validateTwitterUsername ''ghost'' (Some unreachable) fresh_world) = False
   \<and> validatedProfiles (snd (validateTwitterUsername ''ghost'' (Some unreachable) fresh_world)) ''ghost'' = Some False
   \<and> fst (checkProfilePage None ''ghost'' fresh_world) = Inl (TypeError ''getWindowHandle'')
   \<and> fst (validateTwitterUsername ''ghost'' None fresh_world) = False"
proof -
  have 1: "validatedProfiles fresh_world ''ghost'' = None" by (simp add: fresh_world_def)
  have 2: "fst (checkProfilePage (Some unreachable) ''ghost'' fresh_world) = Inl (Error ''WebDriverError'' ''unreachable'')"
    by (simp add: checkProfilePage_def thenE_def returnE_def drv_unit_def drv_string_def
        drv_strings_def drv_value_def issue_def unreachable_def fresh_world_def lastWindow_def)
  have 3: "fst (checkProfilePage None ''ghost'' fresh_world) = Inl (TypeError ''getWindowHandle'')"
    by (simp add: checkProfilePage_def)
  show ?thesis
    using validateTwitterUsername_error_is_cached [OF 1 2, of "Some unreachable"]
      validateTwitterUsername_error_is_cached [OF 1 3, of None] 2 3
    by simp
qed

subsection \<open>The result set and the per-match pipeline\<close>




lemma forEachMatch_inv:
  assumes pm: "\<And>m rs w. Q rs \<Longrightarrow> Q (fst (snd (processMatch pattern m (rs, w))))"
  shows "Q rs \<Longrightarrow> Q (fst (snd (forEachMatch pattern ms (rs, w))))"
proof (induction ms arbitrary: rs w)
  case Nil
  then show ?case by simp
next
  case (Cons m ms)
  obtain e rs1 w1 where p: "processMatch pattern m (rs, w) = (e, rs1, w1)"
    by (cases "processMatch pattern m (rs, w)")
  have q: "Q rs1" using pm [OF Cons.prems, of m w] p by simp
  show ?case
  proof (cases e)
    case None
    then show ?thesis using p Cons.IH [OF q, of w1] by simp
  next
    case (Some err)
    then show ?thesis using p q by simp
  qed
qed

lemma forEachRegex_inv:
  assumes pm: "\<And>m rs w. Q rs \<Longrightarrow> Q (fst (snd (processMatch pattern m (rs, w))))"
  shows "Q rs \<Longrightarrow> Q (fst (snd (forEachRegex pattern regexes text (rs, w))))"
proof (induction regexes arbitrary: rs w)
  case Nil
  then show ?case by simp
next
  case (Cons regex rest)
  show ?case
  proof (cases "regex text")
    case None
    then show ?thesis using Cons.IH [OF Cons.prems] by simp
  next
    case (Some ms)
    obtain e rs1 w1 where f: "forEachMatch pattern ms (rs, w) = (e, rs1, w1)"
      by (cases "forEachMatch pattern ms (rs, w)")
    have "Q (fst (snd (forEachMatch pattern ms (rs, w))))"
    proof (rule forEachMatch_inv [where Q = Q])
      show "\<And>m rs w. Q rs \<Longrightarrow> Q (fst (snd (processMatch pattern m (rs, w))))" by (rule pm)
      show "Q rs" by (rule Cons.prems)
    qed
    then have q: "Q rs1" using f by simp
    show ?thesis
    proof (cases e)
      case None
      then show ?thesis using Some f Cons.IH [OF q, of w1] by simp
    next
      case (Some err)
      then show ?thesis using \<open>regex text = Some ms\<close> f q by simp
    qed
  qed
qed

lemma processElement_inv:
  assumes pm: "\<And>m rs w. Q rs \<Longrightarrow> Q (fst (snd (processMatch pattern m (rs, w))))"
    and q: "Q rs"
  shows "Q (fst (processElement driver pattern el (rs, w)))"
proof -
  obtain r w1 where ro: "retryOperation (readElement driver pattern el) 3 1000 None w = (r, w1)"
    by (cases "retryOperation (readElement driver pattern el) 3 1000 None w")
  show ?thesis
  proof (cases r)
    case (Inl e)
    then show ?thesis using ro q by (simp add: processElement_def)
  next
    case (Inr t)
    show ?thesis
    proof (cases t)
      case None
      then show ?thesis using ro q Inr by (simp add: processElement_def)
    next
      case (Some s)
      have "Q (fst (snd (forEachRegex pattern (patterns pattern) s (rs, w1))))"
      proof (rule forEachRegex_inv [where Q = Q])
        show "\<And>m rs w. Q rs \<Longrightarrow> Q (fst (snd (processMatch pattern m (rs, w))))" by (rule pm)
        show "Q rs" by (rule q)
      qed
      then show ?thesis using ro q Inr Some by (simp add: processElement_def)
    qed
  qed
qed

lemma foldl_inv:
  assumes step: "\<And>x rs w. Q rs \<Longrightarrow> Q (fst (f (rs, w) x))"
  shows "Q (fst st) \<Longrightarrow> Q (fst (foldl f st xs))"
proof (induction xs arbitrary: st)
  case Nil
  then show ?case by simp
next
  case (Cons x xs)
  have "Q (fst (f st x))" using step [where rs = "fst st" and x = x and w = "snd st"] Cons.prems by simp
  then show ?case using Cons.IH by simp
qed

lemma processSelector_inv:
  assumes pm: "\<And>m rs w. Q rs \<Longrightarrow> Q (fst (snd (processMatch pattern m (rs, w))))"
    and q: "Q rs"
  shows "Q (fst (processSelector driver pattern selector (rs, w)))"
proof -
  let ?op = "drv_elements driver (FindElements (ByCss selector))"
  obtain r w1 where ro: "retryOperation ?op 3 1000 (Some driver) w = (r, w1)"
    by (cases "retryOperation ?op 3 1000 (Some driver) w")
  show ?thesis
  proof (cases r)
    case (Inl e)
    then show ?thesis using ro q by (simp add: processSelector_def)
  next
    case (Inr elements)
    have "Q (fst (foldl (\<lambda>st' el. processElement driver pattern el st') (rs, w1) elements))"
    proof (rule foldl_inv [where Q = Q])
      show "\<And>x rs w. Q rs \<Longrightarrow> Q (fst (processElement driver pattern x (rs, w)))"
      proof (rule processElement_inv [where Q = Q])
        show "\<And>m rs w. Q rs \<Longrightarrow> Q (fst (snd (processMatch pattern m (rs, w))))" by (rule pm)
      qed
      show "Q (fst (rs, w1))" by (simp add: q)
    qed
    then show ?thesis using ro Inr by (simp add: processSelector_def)
  qed
qed

lemma extractDataByPattern_inv:
  assumes pm: "\<And>m rs w. Q rs \<Longrightarrow> Q (fst (snd (processMatch pattern m (rs, w))))"
    and q: "Q []"
  shows "Q (fst (extractDataByPattern driver pattern w))"
proof -
  obtain r w1 where d: "drv_unit driver (WaitLocated (ByCss ''body'') 10000) w = (r, w1)"
    by (cases "drv_unit driver (WaitLocated (ByCss ''body'') 10000) w")
  show ?thesis
  proof (cases r)
    case (Inl e)
    then show ?thesis using d q by (simp add: extractDataByPattern_def)
  next
    case (Inr u)
    have "Q (fst (foldl (\<lambda>st selector. processSelector driver pattern selector st) ([], w1)
                   (selectors (config pattern))))"
    proof (rule foldl_inv [where Q = Q])
      show "\<And>x rs w. Q rs \<Longrightarrow> Q (fst (processSelector driver pattern x (rs, w)))"
      proof (rule processSelector_inv [where Q = Q])
        show "\<And>m rs w. Q rs \<Longrightarrow> Q (fst (snd (processMatch pattern m (rs, w))))" by (rule pm)
      qed
      show "Q (fst ([], w1))" by (simp add: q)
    qed
    then show ?thesis using d Inr by (simp add: extractDataByPattern_def)
  qed
qed





lemma crawl_step_fields:
  "urlsToVisit (fst (crawl_step driver pattern (cs, w))) = tl (urlsToVisit cs)"
  "visitedUrls (fst (crawl_step driver pattern (cs, w))) = visitedUrls cs"
  "cs_results (fst (crawl_step driver pattern (cs, w)))
     = fst (visitUrl driver pattern (hd (urlsToVisit cs)) (cs_results cs, w))"
  "snd (crawl_step driver pattern (cs, w))
     = snd (visitUrl driver pattern (hd (urlsToVisit cs)) (cs_results cs, w))"
  by (simp_all add: crawl_step_def split: prod.splits)

lemma crawl_loop_once:
  "crawl_loop driver pattern (crawl_init baseUrl, w) = crawl_step driver pattern (crawl_init baseUrl, w)"
proof -
  have go: "crawl_continues (fst (crawl_init baseUrl, w))"
    by (simp add: crawl_continues_def crawl_init_def MAX_PAGES_def)
  have "urlsToVisit (fst (crawl_step driver pattern (crawl_init baseUrl, w))) = []"
    by (simp add: crawl_step_fields crawl_init_def)
  then have stop: "\<not> crawl_continues (fst (crawl_step driver pattern (crawl_init baseUrl, w)))"
    by (simp add: crawl_continues_def)
  have "crawl_loop driver pattern (crawl_init baseUrl, w)
          = crawl_loop driver pattern (crawl_step driver pattern (crawl_init baseUrl, w))"
    using go by (subst crawl_loop.simps) simp
  also have "\<dots> = crawl_step driver pattern (crawl_init baseUrl, w)"
    using stop by (subst crawl_loop.simps) simp
  finally show ?thesis .
qed

lemma crawlAndExtract_once:
  "crawlAndExtract driver baseUrl pattern w = visitUrl driver pattern baseUrl ([], w)"
proof -
  have "crawlAndExtract driver baseUrl pattern w
          = (case crawl_step driver pattern (crawl_init baseUrl, w) of (cs, w') \<Rightarrow> (cs_results cs, w'))"
    by (simp only: crawlAndExtract_def crawl_loop_once)
  then show ?thesis
    by (simp add: crawl_step_def crawl_init_def split: prod.splits)
qed




lemma processMatch_promise:
  assumes "transform (config pattern) = Some t"
    and "\<And>m w'. \<exists>r' w''. t m None w' = (Inr (VPromise r'), w'')"
    and "\<forall>v\<in>set rs. \<exists>r'. v = VPromise r'"
  shows "\<forall>v\<in>set (fst (snd (processMatch pattern m (rs, w)))). \<exists>r'. v = VPromise r'"
proof -
  obtain r' w'' where t: "t m None w = (Inr (VPromise r'), w'')" using assms(2) by blast
  show ?thesis using assms(1,3) t
    by (auto simp add: processMatch_def set_add_def split: option.splits prod.splits sum.splits)
qed

lemma processMatch_async:
  assumes "transform (config pattern) = Some t"
    and "\<And>m w'. \<exists>r' w''. t m None w' = (Inr (VPromise r'), w'')"
    and "validate (config pattern) = None
         \<or> (\<exists>vd. validate (config pattern) = Some vd
                \<and> (\<forall>r' w'. \<exists>w''. vd (VPromise r') w' = (Inr True, w'')))"
  shows "\<exists>r' w1 w2. t m None w = (Inr (VPromise r'), w1)
           \<and> processMatch pattern m (rs, w) = (None, set_add (VPromise r') rs, w2)"
proof -
  obtain r' w1 where t: "t m None w = (Inr (VPromise r'), w1)" using assms(2) by blast
  show ?thesis
  proof (cases "validate (config pattern)")
    case None
    then show ?thesis using assms(1) t by (simp add: processMatch_def)
  next
    case (Some vd)
    then obtain w2 where "vd (VPromise r') w1 = (Inr True, w2)" using assms(3) by force
    then show ?thesis using assms(1) t Some by (simp add: processMatch_def)
  qed
qed

lemma forEachMatch_total:
  assumes ne: "\<And>m rs w. fst (processMatch pattern m (rs, w)) = None"
  shows "fst (forEachMatch pattern ms (rs, w)) = None"
proof (induction ms arbitrary: rs w)
  case Nil
  then show ?case by simp
next
  case (Cons m ms)
  obtain rs1 w1 where p: "processMatch pattern m (rs, w) = (None, rs1, w1)"
    using ne [of m rs w] by (cases "processMatch pattern m (rs, w)") auto
  show ?case using Cons.IH [of rs1 w1] by (simp add: p)
qed

lemma forEachMatch_hits:
  assumes ne: "\<And>m rs w. fst (processMatch pattern m (rs, w)) = None"
    and mono: "\<And>m rs w. Q rs \<Longrightarrow> Q (fst (snd (processMatch pattern m (rs, w))))"
    and hit: "\<And>rs w. Q (fst (snd (processMatch pattern m0 (rs, w))))"
  shows "m0 \<in> set ms \<Longrightarrow> Q (fst (snd (forEachMatch pattern ms (rs, w))))"
proof (induction ms arbitrary: rs w)
  case Nil
  then show ?case by simp
next
  case (Cons m ms)
  obtain rs1 w1 where p: "processMatch pattern m (rs, w) = (None, rs1, w1)"
    using ne [of m rs w] by (cases "processMatch pattern m (rs, w)") auto
  show ?case
  proof (cases "m = m0")
    case True
    have q: "Q rs1" using hit [of rs w] p True by simp
    have "Q (fst (snd (forEachMatch pattern ms (rs1, w1))))"
    proof (rule forEachMatch_inv [where Q = Q])
      show "\<And>m rs w. Q rs \<Longrightarrow> Q (fst (snd (processMatch pattern m (rs, w))))" by (rule mono)
      show "Q rs1" by (rule q)
    qed
    then show ?thesis by (simp add: p)
  next
    case False
    then have "m0 \<in> set ms" using Cons.prems by simp
    then show ?thesis using Cons.IH [of rs1 w1] by (simp add: p)
  qed
qed

lemma forEachRegex_hits:
  assumes ne: "\<And>m rs w. fst (processMatch pattern m (rs, w)) = None"
    and mono: "\<And>m rs w. Q rs \<Longrightarrow> Q (fst (snd (processMatch pattern m (rs, w))))"
    and hit: "\<And>rs w. Q (fst (snd (processMatch pattern m0 (rs, w))))"
    and ms: "regex content = Some ms" "m0 \<in> set ms"
  shows "regex \<in> set regexes \<Longrightarrow> Q (fst (snd (forEachRegex pattern regexes content (rs, w))))"
proof (induction regexes arbitrary: rs w)
  case Nil
  then show ?case by simp
next
  case (Cons g rest)
  show ?case
  proof (cases "g content")
    case None
    then have "g \<noteq> regex" using ms(1) by auto
    then have "regex \<in> set rest" using Cons.prems by simp
    then show ?thesis using None Cons.IH by simp
  next
    case (Some ms')
    obtain rs1 w1 where f: "forEachMatch pattern ms' (rs, w) = (None, rs1, w1)"
      using forEachMatch_total [where pattern = pattern and ms = ms' and rs = rs and w = w, OF ne]
      by (cases "forEachMatch pattern ms' (rs, w)") auto
    show ?thesis
    proof (cases "g = regex")
      case True
      then have "ms' = ms" using Some ms(1) by simp
      then have m: "m0 \<in> set ms'" using ms(2) by simp
      have "Q (fst (snd (forEachMatch pattern ms' (rs, w))))"
      proof (rule forEachMatch_hits [where Q = Q and ?m0.0 = m0])
        show "\<And>m rs w. fst (processMatch pattern m (rs, w)) = None" by (rule ne)
        show "\<And>m rs w. Q rs \<Longrightarrow> Q (fst (snd (processMatch pattern m (rs, w))))" by (rule mono)
        show "\<And>rs w. Q (fst (snd (processMatch pattern m0 (rs, w))))" by (rule hit)
        show "m0 \<in> set ms'" by (rule m)
      qed
      then have q: "Q rs1" using f by simp
      have "Q (fst (snd (forEachRegex pattern rest content (rs1, w1))))"
      proof (rule forEachRegex_inv [where Q = Q])
        show "\<And>m rs w. Q rs \<Longrightarrow> Q (fst (snd (processMatch pattern m (rs, w))))" by (rule mono)
        show "Q rs1" by (rule q)
      qed
      then show ?thesis using Some f by simp
    next
      case False
      then have "regex \<in> set rest" using Cons.prems by simp
      then show ?thesis using Some f Cons.IH [of rs1 w1] by simp
    qed
  qed
qed

lemma retryOperation_first:
  assumes "fst (operation w) = Inr v"
  shows "retryOperation operation 3 delay driver w = operation w"
proof -
  obtain w1 where "operation w = (Inr v, w1)" using assms by (cases "operation w") auto
  then show ?thesis by (simp add: retryOperation_def retry_loop.simps)
qed

lemma processElement_hits:
  assumes ne: "\<And>m rs w. fst (processMatch pattern m (rs, w)) = None"
    and mono: "\<And>m rs w. Q rs \<Longrightarrow> Q (fst (snd (processMatch pattern m (rs, w))))"
    and hit: "\<And>rs w. Q (fst (snd (processMatch pattern m0 (rs, w))))"
    and ms: "regex content = Some ms" "m0 \<in> set ms" "regex \<in> set (patterns pattern)"
    and rd: "\<And>w. fst (readElement driver pattern el w) = Inr (Some content)" "content \<noteq> []"
  shows "Q (fst (processElement driver pattern el (rs, w)))"
proof -
  obtain w1 where r: "readElement driver pattern el w = (Inr (Some content), w1)"
    using rd(1) [of w] by (cases "readElement driver pattern el w") auto
  have ro: "retryOperation (readElement driver pattern el) 3 1000 None w = (Inr (Some content), w1)"
    using retryOperation_first [of "readElement driver pattern el" w "Some content" 1000 None] r
    by simp
  have "Q (fst (snd (forEachRegex pattern (patterns pattern) content (rs, w1))))"
  proof (rule forEachRegex_hits [where Q = Q and ?m0.0 = m0 and regex = regex and ms = ms])
    show "\<And>m rs w. fst (processMatch pattern m (rs, w)) = None" by (rule ne)
    show "\<And>m rs w. Q rs \<Longrightarrow> Q (fst (snd (processMatch pattern m (rs, w))))" by (rule mono)
    show "\<And>rs w. Q (fst (snd (processMatch pattern m0 (rs, w))))" by (rule hit)
    show "regex content = Some ms" by (rule ms(1))
    show "m0 \<in> set ms" by (rule ms(2))
    show "regex \<in> set (patterns pattern)" by (rule ms(3))
  qed
  then show ?thesis using ro rd(2) by (simp add: processElement_def)
qed

lemma foldl_hits:
  assumes "x \<in> set xs"
    and hit: "\<And>rs w. Q (fst (f (rs, w) x))"
    and mono: "\<And>y rs w. Q rs \<Longrightarrow> Q (fst (f (rs, w) y))"
  shows "Q (fst (foldl f st xs))"
  using assms(1)
proof (induction xs arbitrary: st)
  case Nil
  then show ?case by simp
next
  case (Cons y ys)
  show ?case
  proof (cases "y = x")
    case True
    have q: "Q (fst (f st x))" using hit [of "fst st" "snd st"] by simp
    have "Q (fst (foldl f (f st x) ys))"
    proof (rule foldl_inv [where Q = Q])
      show "\<And>y rs w. Q rs \<Longrightarrow> Q (fst (f (rs, w) y))" by (rule mono)
      show "Q (fst (f st x))" by (rule q)
    qed
    then show ?thesis using True by simp
  next
    case False
    then have "x \<in> set ys" using Cons.prems by simp
    then show ?thesis using Cons.IH [of "f st y"] by simp
  qed
qed

lemma processSelector_hits:
  assumes ne: "\<And>m rs w. fst (processMatch pattern m (rs, w)) = None"
    and mono: "\<And>m rs w. Q rs \<Longrightarrow> Q (fst (snd (processMatch pattern m (rs, w))))"
    and hit: "\<And>rs w. Q (fst (snd (processMatch pattern m0 (rs, w))))"
    and ms: "regex content = Some ms" "m0 \<in> set ms" "regex \<in> set (patterns pattern)"
    and rd: "\<And>w. fst (readElement driver pattern el w) = Inr (Some content)" "content \<noteq> []"
    and fe: "\<And>w. fst (drv_elements driver (FindElements (ByCss selector)) w) = Inr elements"
      "el \<in> set elements"
  shows "Q (fst (processSelector driver pattern selector (rs, w)))"
proof -
  let ?op = "drv_elements driver (FindElements (ByCss selector))"
  obtain w1 where o: "?op w = (Inr elements, w1)"
    using fe(1) [of w] by (cases "?op w") auto
  have ro: "retryOperation ?op 3 1000 (Some driver) w = (Inr elements, w1)"
    using retryOperation_first [of ?op w elements 1000 "Some driver"] o by simp
  have "Q (fst (foldl (\<lambda>st' e. processElement driver pattern e st') (rs, w1) elements))"
  proof (rule foldl_hits [where Q = Q and x = el])
    show "el \<in> set elements" by (rule fe(2))
    show "\<And>rs w. Q (fst (processElement driver pattern el (rs, w)))"
    proof (rule processElement_hits [where Q = Q and ?m0.0 = m0 and regex = regex and ms = ms
          and content = content])
      show "\<And>m rs w. fst (processMatch pattern m (rs, w)) = None" by (rule ne)
      show "\<And>m rs w. Q rs \<Longrightarrow> Q (fst (snd (processMatch pattern m (rs, w))))" by (rule mono)
      show "\<And>rs w. Q (fst (snd (processMatch pattern m0 (rs, w))))" by (rule hit)
      show "regex content = Some ms" by (rule ms(1))
      show "m0 \<in> set ms" by (rule ms(2))
      show "regex \<in> set (patterns pattern)" by (rule ms(3))
      show "\<And>w. fst (readElement driver pattern el w) = Inr (Some content)" by (rule rd(1))
      show "content \<noteq> []" by (rule rd(2))
    qed
    show "\<And>y rs w. Q rs \<Longrightarrow> Q (fst (processElement driver pattern y (rs, w)))"
    proof (rule processElement_inv [where Q = Q])
      show "\<And>m rs w. Q rs \<Longrightarrow> Q (fst (snd (processMatch pattern m (rs, w))))" by (rule mono)
    qed
  qed
  then show ?thesis using ro by (simp add: processSelector_def)
qed

lemma extractDataByPattern_hits:
  assumes ne: "\<And>m rs w. fst (processMatch pattern m (rs, w)) = None"
    and mono: "\<And>m rs w. Q rs \<Longrightarrow> Q (fst (snd (processMatch pattern m (rs, w))))"
    and hit: "\<And>rs w. Q (fst (snd (processMatch pattern m0 (rs, w))))"
    and ms: "regex content = Some ms" "m0 \<in> set ms" "regex \<in> set (patterns pattern)"
    and rd: "\<And>w. fst (readElement driver pattern el w) = Inr (Some content)" "content \<noteq> []"
    and fe: "\<And>w. fst (drv_elements driver (FindElements (ByCss selector)) w) = Inr elements"
      "el \<in> set elements"
    and sel: "selector \<in> set (selectors (config pattern))"
    and body: "\<And>w. fst (drv_unit driver (WaitLocated (ByCss ''body'') 10000) w) = Inr ()"
  shows "Q (fst (extractDataByPattern driver pattern w))"
proof -
  obtain w1 where d: "drv_unit driver (WaitLocated (ByCss ''body'') 10000) w = (Inr (), w1)"
    using body [of w] by (cases "drv_unit driver (WaitLocated (ByCss ''body'') 10000) w") auto
  have "Q (fst (foldl (\<lambda>st s. processSelector driver pattern s st) ([], w1)
                 (selectors (config pattern))))"
  proof (rule foldl_hits [where Q = Q and x = selector])
    show "selector \<in> set (selectors (config pattern))" by (rule sel)
    show "\<And>rs w. Q (fst (processSelector driver pattern selector (rs, w)))"
    proof (rule processSelector_hits [where Q = Q and ?m0.0 = m0 and regex = regex and ms = ms
          and content = content and el = el and elements = elements])
      show "\<And>m rs w. fst (processMatch pattern m (rs, w)) = None" by (rule ne)
      show "\<And>m rs w. Q rs \<Longrightarrow> Q (fst (snd (processMatch pattern m (rs, w))))" by (rule mono)
      show "\<And>rs w. Q (fst (snd (processMatch pattern m0 (rs, w))))" by (rule hit)
      show "regex content = Some ms" by (rule ms(1))
      show "m0 \<in> set ms" by (rule ms(2))
      show "regex \<in> set (patterns pattern)" by (rule ms(3))
      show "\<And>w. fst (readElement driver pattern el w) = Inr (Some content)" by (rule rd(1))
      show "content \<noteq> []" by (rule rd(2))
      show "\<And>w. fst (drv_elements driver (FindElements (ByCss selector)) w) = Inr elements"
        by (rule fe(1))
      show "el \<in> set elements" by (rule fe(2))
    qed
    show "\<And>y rs w. Q rs \<Longrightarrow> Q (fst (processSelector driver pattern y (rs, w)))"
    proof (rule processSelector_inv [where Q = Q])
      show "\<And>m rs w. Q rs \<Longrightarrow> Q (fst (snd (processMatch pattern m (rs, w))))" by (rule mono)
    qed
  qed
  then show ?thesis using d by (simp add: extractDataByPattern_def)
qed

text \<open>
  C10. The transform is called with the match and no driver, and its result is used as
  returned. When that result is a promise, the promise itself, which is truthy, is what
  the validator receives and what is added to the set (always so when there is no
  validator, as for the Twitter pattern). When the transform returns a promise at every
  call, every value that \<open>extractDataByPattern\<close> returns is a promise; and when, besides,
  the validator, if there is one, accepts promises, the page is ready, one of the
  selectors finds an element, and the text read from the element has a match, then the
  result of \<open>extractDataByPattern\<close> holds a promise that the transform returned for that
  match.
\<close>

theorem async_transform_inserts_promise:
  assumes "transform (config pattern) = Some t"
  shows "(t match None w = (Inr (VPromise r), w1) \<longrightarrow>
            truthy (VPromise r) \<and>
            processMatch pattern match (results, w) =
              (case validate (config pattern) of
                 None \<Rightarrow> (None, set_add (VPromise r) results, w1)
               | Some vd \<Rightarrow>
                   (case vd (VPromise r) w1 of
                      (Inl e, w2) \<Rightarrow> (Some e, results, w2)
                    | (Inr ok, w2) \<Rightarrow>
                        (None, (if ok then set_add (VPromise r) results else results), w2))))
       \<and> ((\<forall>m w'. \<exists>r' w''. t m None w' = (Inr (VPromise r'), w'')) \<longrightarrow>
            (\<forall>v\<in>set (fst (extractDataByPattern driver pattern w)). \<exists>r'. v = VPromise r'))
       \<and> ((\<forall>m w'. \<exists>r' w''. t m None w' = (Inr (VPromise r'), w''))
            \<and> (validate (config pattern) = None
                 \<or> (\<exists>vd. validate (config pattern) = Some vd
                        \<and> (\<forall>r' w'. \<exists>w''. vd (VPromise r') w' = (Inr True, w''))))
            \<and> (\<forall>tr. on_unit driver tr (WaitLocated (ByCss ''body'') 10000) = None)
            \<and> selector \<in> set (selectors (config pattern))
            \<and> (\<forall>tr. on_elements driver tr (FindElements (ByCss selector)) = Inr elements)
            \<and> el \<in> set elements
            \<and> (\<forall>w'. fst (readElement driver pattern el w') = Inr (Some content))
            \<and> content \<noteq> []
            \<and> regex \<in> set (patterns pattern) \<and> regex content = Some matches \<and> m0 \<in> set matches
          \<longrightarrow> (\<exists>r' w' w''. t m0 None w' = (Inr (VPromise r'), w'')
                 \<and> VPromise r' \<in> set (fst (extractDataByPattern driver pattern w))))"
proof -
  have a: "t match None w = (Inr (VPromise r), w1) \<Longrightarrow>
            processMatch pattern match (results, w) =
              (case validate (config pattern) of
                 None \<Rightarrow> (None, set_add (VPromise r) results, w1)
               | Some vd \<Rightarrow>
                   (case vd (VPromise r) w1 of
                      (Inl e, w2) \<Rightarrow> (Some e, results, w2)
                    | (Inr ok, w2) \<Rightarrow>
                        (None, (if ok then set_add (VPromise r) results else results), w2)))"
    using assms by (simp add: processMatch_def)
  have b: "\<forall>v\<in>set (fst (extractDataByPattern driver pattern w)). \<exists>r'. v = VPromise r'"
    if all: "\<forall>m w'. \<exists>r' w''. t m None w' = (Inr (VPromise r'), w'')"
  proof (rule extractDataByPattern_inv [where Q = "\<lambda>rs. \<forall>v\<in>set rs. \<exists>r'. v = VPromise r'"])
    show "\<And>m rs w. \<forall>v\<in>set rs. \<exists>r'. v = VPromise r' \<Longrightarrow>
            \<forall>v\<in>set (fst (snd (processMatch pattern m (rs, w)))). \<exists>r'. v = VPromise r'"
      using processMatch_promise [OF assms] all by blast
    show "\<forall>v\<in>set []. \<exists>r'. v = VPromise r'" by simp
  qed
  have c: "\<exists>r' w' w''. t m0 None w' = (Inr (VPromise r'), w'')
                 \<and> VPromise r' \<in> set (fst (extractDataByPattern driver pattern w))"
    if all: "\<forall>m w'. \<exists>r' w''. t m None w' = (Inr (VPromise r'), w'')"
      and ok: "validate (config pattern) = None
                 \<or> (\<exists>vd. validate (config pattern) = Some vd
                        \<and> (\<forall>r' w'. \<exists>w''. vd (VPromise r') w' = (Inr True, w'')))"
      and body: "\<forall>tr. on_unit driver tr (WaitLocated (ByCss ''body'') 10000) = None"
      and sel: "selector \<in> set (selectors (config pattern))"
      and fe: "\<forall>tr. on_elements driver tr (FindElements (ByCss selector)) = Inr elements"
        "el \<in> set elements"
      and rd: "\<forall>w'. fst (readElement driver pattern el w') = Inr (Some content)" "content \<noteq> []"
      and ms: "regex \<in> set (patterns pattern)" "regex content = Some matches" "m0 \<in> set matches"
  proof -
    let ?Q = "\<lambda>rs. \<exists>r' w' w''. t m0 None w' = (Inr (VPromise r'), w'') \<and> VPromise r' \<in> set rs"
    have pm: "\<exists>r' w1 w2. t m None w = (Inr (VPromise r'), w1)
                \<and> processMatch pattern m (rs, w) = (None, set_add (VPromise r') rs, w2)" for m rs w
      using processMatch_async [OF assms, of m w rs] all ok by blast
    have ne: "\<And>m rs w. fst (processMatch pattern m (rs, w)) = None"
      using pm by (metis fst_conv)
    have mono: "\<And>m rs w. ?Q rs \<Longrightarrow> ?Q (fst (snd (processMatch pattern m (rs, w))))"
    proof -
      fix m rs w assume q: "?Q rs"
      obtain r' w2 where "processMatch pattern m (rs, w) = (None, set_add (VPromise r') rs, w2)"
        using pm [of m w rs] by blast
      then show "?Q (fst (snd (processMatch pattern m (rs, w))))"
        using q by (auto simp add: set_add_def)
    qed
    have hit: "\<And>rs w. ?Q (fst (snd (processMatch pattern m0 (rs, w))))"
    proof -
      fix rs w
      obtain r' w1 w2 where "t m0 None w = (Inr (VPromise r'), w1)"
        and "processMatch pattern m0 (rs, w) = (None, set_add (VPromise r') rs, w2)"
        using pm [of m0 w rs] by blast
      then show "?Q (fst (snd (processMatch pattern m0 (rs, w))))"
        by (auto simp add: set_add_def)
    qed
    have fe': "\<And>w. fst (drv_elements driver (FindElements (ByCss selector)) w) = Inr elements"
      using fe(1) by (simp add: drv_elements_def)
    have body': "\<And>w. fst (drv_unit driver (WaitLocated (ByCss ''body'') 10000) w) = Inr ()"
      using body by (simp add: drv_unit_def)
    have rd': "\<And>w. fst (readElement driver pattern el w) = Inr (Some content)"
      using rd(1) by simp
    show ?thesis
    proof (rule extractDataByPattern_hits [where Q = ?Q and ?m0.0 = m0 and regex = regex
            and content = content and ms = matches and el = el and selector = selector
            and elements = elements])
      show "\<And>m rs w. fst (processMatch pattern m (rs, w)) = None" by (rule ne)
      show "\<And>m rs w. ?Q rs \<Longrightarrow> ?Q (fst (snd (processMatch pattern m (rs, w))))" by (rule mono)
      show "\<And>rs w. ?Q (fst (snd (processMatch pattern m0 (rs, w))))" by (rule hit)
      show "regex content = Some matches" by (rule ms(2))
      show "m0 \<in> set matches" by (rule ms(3))
      show "regex \<in> set (patterns pattern)" by (rule ms(1))
      show "\<And>w. fst (readElement driver pattern el w) = Inr (Some content)" by (rule rd')
      show "content \<noteq> []" by (rule rd(2))
      show "\<And>w. fst (drv_elements driver (FindElements (ByCss selector)) w) = Inr elements"
        by (rule fe')
      show "el \<in> set elements" by (rule fe(2))
      show "selector \<in> set (selectors (config pattern))" by (rule sel)
      show "\<And>w. fst (drv_unit driver (WaitLocated (ByCss ''body'') 10000) w) = Inr ()"
        by (rule body')
    qed
  qed
  show ?thesis using a b c by simp
qed

text \<open>
  The theorem at a pattern with an asynchronous transform and no validator, on a page with
  one link: the result of the extraction is the promise that the transform returned for
  the text of the link.
\<close>

theorem async_transform_inserts_promise_witness:
  "processMatch async_pattern (VStr ''x.com/ghost'') ([], fresh_world)
     = (None, [VPromise 0], fresh_world\<lparr>allocated := 1\<rparr>)
   \<and> set (fst (extractDataByPattern one_link async_pattern fresh_world)) \<subseteq> range VPromise
   \<and> (\<exists>r' w' w''. promised (VStr ''x.com/ghost'') None w' = (Inr (VPromise r'), w'')
         \<and> VPromise r' \<in> set (fst (extractDataByPattern one_link async_pattern fresh_world)))
   \<and> fst (extractDataByPattern one_link async_pattern fresh_world) = [VPromise 0]"
proof -
  have 1: "transform (config async_pattern) = Some promised" by (simp add: async_pattern_def)
  have 2: "promised (VStr ''x.com/ghost'') None fresh_world = (Inr (VPromise 0), fresh_world\<lparr>allocated := 1\<rparr>)"
    by (simp add: promised_def fresh_world_def)
  have 3: "\<forall>m w'. \<exists>r' w''. promised m None w' = (Inr (VPromise r'), w'')"
    by (simp add: promised_def)
  have 4: "validate (config async_pattern) = None" by (simp add: async_pattern_def)
  have 5: "\<forall>tr. on_unit one_link tr (WaitLocated (ByCss ''body'') 10000) = None"
    by (simp add: one_link_def)
  have 6: "''a'' \<in> set (selectors (config async_pattern))" by (simp add: async_pattern_def)
  have 7: "\<forall>tr. on_elements one_link tr (FindElements (ByCss ''a'')) = Inr [1]"
    by (simp add: one_link_def)
  have 8: "(1::nat) \<in> set [1]" by simp
  have 9: "\<forall>w'. fst (readElement one_link async_pattern 1 w') = Inr (Some ''x.com/ghost'')"
    by (simp add: readElement_def drv_string_def one_link_def async_pattern_def)
  have 10: "''x.com/ghost'' \<noteq> []" by simp
  have 11: "link_text \<in> set (patterns async_pattern)" by (simp add: async_pattern_def)
  have 12: "link_text ''x.com/ghost'' = Some [VStr ''x.com/ghost'']" by (simp add: link_text_def)
  have 13: "VStr ''x.com/ghost'' \<in> set [VStr ''x.com/ghost'']" by simp
  note th = async_transform_inserts_promise [OF 1, where match = "VStr ''x.com/ghost''"
        and w = fresh_world and r = 0 and ?w1.0 = "fresh_world\<lparr>allocated := 1\<rparr>"
        and results = "[]" and driver = one_link and selector = "''a''" and elements = "[1]"
        and el = 1 and content = "''x.com/ghost''" and regex = link_text
        and matches = "[VStr ''x.com/ghost'']" and ?m0.0 = "VStr ''x.com/ghost''"]
  have a: "processMatch async_pattern (VStr ''x.com/ghost'') ([], fresh_world)
             = (None, [VPromise 0], fresh_world\<lparr>allocated := 1\<rparr>)"
    using th 2 4 by (simp add: set_add_def)
  have b: "set (fst (extractDataByPattern one_link async_pattern fresh_world)) \<subseteq> range VPromise"
    using th 3 by auto
  have c: "\<exists>r' w' w''. promised (VStr ''x.com/ghost'') None w' = (Inr (VPromise r'), w'')
         \<and> VPromise r' \<in> set (fst (extractDataByPattern one_link async_pattern fresh_world))"
    using th 3 4 5 6 7 8 9 10 11 12 13 by blast
  have d: "fst (extractDataByPattern one_link async_pattern fresh_world) = [VPromise 0]"
    by (simp add: extractDataByPattern_def processSelector_def processElement_def readElement_def
      retryOperation_def retry_loop.simps processMatch_def set_add_def
      drv_unit_def drv_elements_def drv_string_def issue_def
      one_link_def async_pattern_def promised_def link_text_def fresh_world_def)
  show ?thesis using a b c d by simp
qed

text \<open>
  C1 does not hold of the code. On a page with one link, a pattern whose transform
  answers \<open>null\<close> to every match and that has no validator yields the result \<open>[null]\<close>:
  the falsy value is not dropped. With an asynchronous transform the result holds the
  promise.
\<close>

theorem null_transform_result_is_kept:
  "fst (extractDataByPattern one_link rejecting_pattern fresh_world) = [VNull]
   \<and> \<not> truthy VNull
   \<and> fst (extractDataByPattern one_link async_pattern fresh_world) = [VPromise 0]"
  by (simp add: extractDataByPattern_def processSelector_def processElement_def readElement_def
      retryOperation_def retry_loop.simps processMatch_def set_add_def
      drv_unit_def drv_elements_def drv_string_def issue_def
      one_link_def rejecting_pattern_def async_pattern_def reject_def promised_def
      link_text_def fresh_world_def)

subsection \<open>The crawl loop\<close>

lemma navigations_issue:
  "navigations (issue c w) = navigations w @ (case c of Get url \<Rightarrow> [url] | _ \<Rightarrow> [])"
  by (simp add: navigations_def issue_def)

lemma navigations_drv:
  "navigations (snd (drv_unit b c w)) = navigations (issue c w)"
  "navigations (snd (drv_elements b c w)) = navigations (issue c w)"
  "navigations (snd (drv_string b c w)) = navigations (issue c w)"
  "navigations (snd (drv_bool b c w)) = navigations (issue c w)"
  "navigations (snd (drv_value b c w)) = navigations (issue c w)"
  by (simp_all add: drv_unit_def drv_elements_def drv_string_def drv_bool_def drv_value_def)

lemma retry_loop_navigations:
  assumes op: "\<And>w. navigations (snd (operation w)) = navigations w"
  shows "navigations (snd (retry_loop operation maxRetries delay driver i lastError w)) = navigations w"
  using op
proof (induction operation maxRetries delay driver i lastError w rule: retry_loop.induct)
  case (1 operation maxRetries delay driver i lastError w)
  note op' = "1.prems"
  obtain r w1 where ow: "operation w = (r, w1)" by (cases "operation w")
  have n1: "navigations w1 = navigations w" using op' [of w] ow by simp
  show ?case
  proof (cases "i < maxRetries")
    case False
    then show ?thesis by (subst retry_loop.simps) simp
  next
    case True
    show ?thesis
    proof (cases r)
      case (Inr v)
      then show ?thesis using True ow n1 by (subst retry_loop.simps) simp
    next
      case (Inl err)
      show ?thesis
      proof (cases err)
        case Undefined_thrown
        then show ?thesis using True ow n1 Inl by (subst retry_loop.simps) simp
      next
        case (Error nm msg)
        show ?thesis
        proof (cases driver)
          case None
          have ih: "i \<noteq> maxRetries - 1 \<Longrightarrow>
                 navigations (snd (retry_loop operation maxRetries delay driver (i + 1) err w1)) = navigations w1"
            using "1.IH"(1) [OF True ow [symmetric] Inl Error None _ op'] by simp
          show ?thesis using True ow n1 Inl Error None ih
            by (subst retry_loop.simps) simp
        next
          case (Some b)
          obtain r2 w2 where d2: "drv_unit b Refresh w1 = (r2, w2)" by (cases "drv_unit b Refresh w1")
          obtain r3 w3 where d3: "drv_unit b (Sleep delay) w2 = (r3, w3)" by (cases "drv_unit b (Sleep delay) w2")
          have n2: "navigations w2 = navigations w" using d2 navigations_drv(1) [of b Refresh w1] n1
            by (simp add: navigations_issue)
          have n3: "navigations w3 = navigations w" using d3 navigations_drv(1) [of b "Sleep delay" w2] n2
            by (simp add: navigations_issue)
          have ih1: "nm = ''StaleElementReferenceError'' \<Longrightarrow> r2 = Inr u2 \<Longrightarrow> r3 = Inr u3 \<Longrightarrow>
                 navigations (snd (retry_loop operation maxRetries delay driver (i + 1) err w3)) = navigations w3"
            for u2 u3
            using "1.IH"(2) [OF True ow [symmetric] Inl Error Some _ d2 [symmetric] _ d3 [symmetric] _ op']
            by simp
          have ih2: "nm \<noteq> ''StaleElementReferenceError'' \<Longrightarrow> i \<noteq> maxRetries - 1 \<Longrightarrow>
                 navigations (snd (retry_loop operation maxRetries delay driver (i + 1) err w1)) = navigations w1"
            using "1.IH"(3) [OF True ow [symmetric] Inl Error Some _ _ op'] by simp
          show ?thesis using True ow n1 n2 n3 Inl Error Some d2 d3 ih1 ih2
            by (subst retry_loop.simps) (cases r2; cases r3; simp)
        qed
      qed
    qed
  qed
qed

lemma retryOperation_navigations:
  assumes "\<And>w. navigations (snd (operation w)) = navigations w"
  shows "navigations (snd (retryOperation operation maxRetries delay driver w)) = navigations w"
  unfolding retryOperation_def using assms by (rule retry_loop_navigations)

lemma processMatch_navigations:
  assumes tq: "\<And>t m w. transform (config pattern) = Some t \<Longrightarrow> navigations (snd (t m None w)) = navigations w"
    and vq: "\<And>vd v w. validate (config pattern) = Some vd \<Longrightarrow> navigations (snd (vd v w)) = navigations w"
  shows "navigations (snd (snd (processMatch pattern m (rs, w)))) = navigations w"
proof -
  obtain r w1 where t: "(case transform (config pattern) of None \<Rightarrow> (Inr m, w) | Some t \<Rightarrow> t m None w) = (r, w1)"
    by (cases "(case transform (config pattern) of None \<Rightarrow> (Inr m, w) | Some t \<Rightarrow> t m None w)")
  have n1: "navigations w1 = navigations w"
  proof (cases "transform (config pattern)")
    case None
    then show ?thesis using t by simp
  next
    case (Some t')
    then show ?thesis using t tq [OF Some, of m w] by simp
  qed
  show ?thesis
  proof (cases r)
    case (Inl e)
    then show ?thesis using t n1 by (simp add: processMatch_def)
  next
    case (Inr v)
    show ?thesis
    proof (cases "validate (config pattern)")
      case None
      then show ?thesis using t n1 Inr by (simp add: processMatch_def)
    next
      case (Some vd)
      obtain r2 w2 where v: "vd v w1 = (r2, w2)" by (cases "vd v w1")
      have "navigations w2 = navigations w" using vq [OF Some, of v w1] v n1 by simp
      then show ?thesis using t Inr Some v by (cases r2) (simp_all add: processMatch_def)
    qed
  qed
qed

lemma forEachMatch_navigations:
  assumes pm: "\<And>m rs w. navigations (snd (snd (processMatch pattern m (rs, w)))) = navigations w"
  shows "navigations (snd (snd (forEachMatch pattern ms (rs, w)))) = navigations w"
proof (induction ms arbitrary: rs w)
  case Nil
  then show ?case by simp
next
  case (Cons m ms)
  obtain e rs1 w1 where p: "processMatch pattern m (rs, w) = (e, rs1, w1)"
    by (cases "processMatch pattern m (rs, w)")
  have n: "navigations w1 = navigations w" using pm [of m rs w] p by simp
  show ?case using p n Cons.IH [of rs1 w1] by (cases e) simp_all
qed

lemma forEachRegex_navigations:
  assumes pm: "\<And>m rs w. navigations (snd (snd (processMatch pattern m (rs, w)))) = navigations w"
  shows "navigations (snd (snd (forEachRegex pattern regexes s (rs, w)))) = navigations w"
proof (induction regexes arbitrary: rs w)
  case Nil
  then show ?case by simp
next
  case (Cons regex rest)
  show ?case
  proof (cases "regex s")
    case None
    then show ?thesis using Cons.IH by simp
  next
    case (Some ms)
    obtain e rs1 w1 where f: "forEachMatch pattern ms (rs, w) = (e, rs1, w1)"
      by (cases "forEachMatch pattern ms (rs, w)")
    have n: "navigations w1 = navigations w"
      using forEachMatch_navigations [where pattern = pattern and ms = ms and rs = rs and w = w] pm f
      by simp
    show ?thesis using Some f n Cons.IH [of rs1 w1] by (cases e) simp_all
  qed
qed

lemma readElement_navigations:
  "navigations (snd (readElement driver pattern el w)) = navigations w"
  by (simp add: readElement_def navigations_drv navigations_issue split: option.splits)

lemma processElement_navigations:
  assumes pm: "\<And>m rs w. navigations (snd (snd (processMatch pattern m (rs, w)))) = navigations w"
  shows "navigations (snd (processElement driver pattern el (rs, w))) = navigations w"
proof -
  obtain r w1 where ro: "retryOperation (readElement driver pattern el) 3 1000 None w = (r, w1)"
    by (cases "retryOperation (readElement driver pattern el) 3 1000 None w")
  have n: "navigations w1 = navigations w"
    using retryOperation_navigations [where operation = "readElement driver pattern el"
        and maxRetries = 3 and delay = 1000 and driver = None and w = w]
      readElement_navigations ro by simp
  have f: "navigations (snd (snd (forEachRegex pattern (patterns pattern) s (rs, w1)))) = navigations w" for s
    using forEachRegex_navigations [where pattern = pattern and w = w1] pm n by simp
  show ?thesis using ro n f
    by (simp add: processElement_def split: sum.splits option.splits)
qed

lemma foldl_navigations:
  assumes "\<And>x rs w. navigations (snd (f (rs, w) x)) = navigations w"
  shows "navigations (snd (foldl f st xs)) = navigations (snd st)"
proof (induction xs arbitrary: st)
  case Nil
  then show ?case by simp
next
  case (Cons x xs)
  have "navigations (snd (f st x)) = navigations (snd st)"
    using assms [of "fst st" "snd st" x] by simp
  then show ?case using Cons.IH [of "f st x"] by simp
qed

lemma processSelector_navigations:
  assumes pm: "\<And>m rs w. navigations (snd (snd (processMatch pattern m (rs, w)))) = navigations w"
  shows "navigations (snd (processSelector driver pattern selector (rs, w))) = navigations w"
proof -
  let ?op = "drv_elements driver (FindElements (ByCss selector))"
  obtain r w1 where ro: "retryOperation ?op 3 1000 (Some driver) w = (r, w1)"
    by (cases "retryOperation ?op 3 1000 (Some driver) w")
  have "\<And>w. navigations (snd (?op w)) = navigations w"
    by (simp add: navigations_drv navigations_issue)
  then have n: "navigations w1 = navigations w"
    using retryOperation_navigations [where operation = ?op and maxRetries = 3 and delay = 1000
        and driver = "Some driver" and w = w] ro by simp
  have f: "navigations (snd (foldl (\<lambda>st' el. processElement driver pattern el st') (rs, w1) els))
             = navigations w" for els
    using foldl_navigations [where f = "\<lambda>st' el. processElement driver pattern el st'"
        and st = "(rs, w1)" and xs = els] processElement_navigations [where pattern = pattern] pm n
    by simp
  show ?thesis using ro n f by (simp add: processSelector_def split: sum.splits)
qed

lemma extractDataByPattern_navigations:
  assumes pm: "\<And>m rs w. navigations (snd (snd (processMatch pattern m (rs, w)))) = navigations w"
  shows "navigations (snd (extractDataByPattern driver pattern w)) = navigations w"
proof -
  obtain r w1 where d: "drv_unit driver (WaitLocated (ByCss ''body'') 10000) w = (r, w1)"
    by (cases "drv_unit driver (WaitLocated (ByCss ''body'') 10000) w")
  have n: "navigations w1 = navigations w"
    using navigations_drv(1) [of driver "WaitLocated (ByCss ''body'') 10000" w] d
    by (simp add: navigations_issue)
  have f: "navigations (snd (foldl (\<lambda>st selector. processSelector driver pattern selector st) ([], w1) sels))
             = navigations w" for sels
    using foldl_navigations [where f = "\<lambda>st selector. processSelector driver pattern selector st"
        and st = "([], w1)" and xs = sels] processSelector_navigations [where pattern = pattern] pm n
    by simp
  show ?thesis using d n f by (simp add: extractDataByPattern_def split: sum.splits)
qed

lemma checkDisplayed_navigations:
  "navigations (snd (checkDisplayed driver el w)) = navigations w"
  unfolding checkDisplayed_def
  by (rule thenE_keeps) (simp_all add: navigations_drv navigations_issue)

lemma clickElement_navigations:
  "navigations (snd (clickElement driver el w)) = navigations w"
  unfolding clickElement_def
  by (rule thenE_keeps, simp add: navigations_drv navigations_issue, rule thenE_keeps)
     (simp_all add: navigations_drv navigations_issue)

lemma interactWith_navigations:
  assumes pm: "\<And>m rs w. navigations (snd (snd (processMatch pattern m (rs, w)))) = navigations w"
  shows "navigations (snd (interactWith driver pattern el (rs, w))) = navigations w"
proof -
  obtain r1 w1 where s1: "retryOperation (checkDisplayed driver el) 3 1000 None w = (r1, w1)"
    by (cases "retryOperation (checkDisplayed driver el) 3 1000 None w")
  have n1: "navigations w1 = navigations w"
    using retryOperation_navigations [where operation = "checkDisplayed driver el"
        and maxRetries = 3 and delay = 1000 and driver = None and w = w]
      checkDisplayed_navigations s1 by simp
  obtain r2 w2 where s2: "drv_value driver (ExecuteScript OuterHTML None) w1 = (r2, w2)"
    by (cases "drv_value driver (ExecuteScript OuterHTML None) w1")
  have n2: "navigations w2 = navigations w"
    using navigations_drv(5) [of driver "ExecuteScript OuterHTML None" w1] s2 n1
    by (simp add: navigations_issue)
  obtain r3 w3 where s3: "retryOperation (clickElement driver el) 3 1000 None w2 = (r3, w3)"
    by (cases "retryOperation (clickElement driver el) 3 1000 None w2")
  have n3: "navigations w3 = navigations w"
    using retryOperation_navigations [where operation = "clickElement driver el"
        and maxRetries = 3 and delay = 1000 and driver = None and w = w2]
      clickElement_navigations s3 n2 by simp
  obtain r4 w4 where s4: "drv_unit driver (Sleep 1000) w3 = (r4, w4)"
    by (cases "drv_unit driver (Sleep 1000) w3")
  have n4: "navigations w4 = navigations w"
    using navigations_drv(1) [of driver "Sleep 1000" w3] s4 n3 by (simp add: navigations_issue)
  obtain r5 w5 where s5: "drv_value driver (ExecuteScript OuterHTML None) w4 = (r5, w5)"
    by (cases "drv_value driver (ExecuteScript OuterHTML None) w4")
  have n5: "navigations w5 = navigations w"
    using navigations_drv(5) [of driver "ExecuteScript OuterHTML None" w4] s5 n4
    by (simp add: navigations_issue)
  have n6: "navigations (snd (extractDataByPattern driver pattern w5)) = navigations w"
    using extractDataByPattern_navigations [where pattern = pattern and w = w5] pm n5 by simp
  show ?thesis using s1 s2 s3 s4 s5 n1 n2 n3 n4 n5 n6
    by (auto simp add: interactWith_def split: sum.splits prod.splits)
qed

lemma visitUrl_navigations:
  assumes pm: "\<And>m rs w. navigations (snd (snd (processMatch pattern m (rs, w)))) = navigations w"
  shows "navigations (snd (visitUrl driver pattern url (rs, w))) = navigations w @ [url]"
proof -
  obtain r1 w1 where s1: "drv_unit driver (Get url) w = (r1, w1)"
    by (cases "drv_unit driver (Get url) w")
  have n1: "navigations w1 = navigations w @ [url]"
    using navigations_drv(1) [of driver "Get url" w] s1 by (simp add: navigations_issue)
  obtain r2 w2 where s2: "drv_unit driver (WaitLocated (ByTagName ''body'') 10000) w1 = (r2, w2)"
    by (cases "drv_unit driver (WaitLocated (ByTagName ''body'') 10000) w1")
  have n2: "navigations w2 = navigations w @ [url]"
    using navigations_drv(1) [of driver "WaitLocated (ByTagName ''body'') 10000" w1] s2 n1
    by (simp add: navigations_issue)
  obtain r3 w3 where s3: "drv_unit driver (Sleep 2000) w2 = (r3, w3)"
    by (cases "drv_unit driver (Sleep 2000) w2")
  have n3: "navigations w3 = navigations w @ [url]"
    using navigations_drv(1) [of driver "Sleep 2000" w2] s3 n2 by (simp add: navigations_issue)
  let ?op = "\<lambda>w'. case extractDataByPattern driver pattern w' of (rs, w'') \<Rightarrow> (Inr rs, w'')"
  have op: "\<And>w. navigations (snd (?op w)) = navigations w"
    using extractDataByPattern_navigations [where pattern = pattern and driver = driver] pm
    by (simp split: prod.splits) (metis snd_conv)
  obtain r4 w4 where s4: "retryOperation ?op 3 1000 (Some driver) w3 = (r4, w4)"
    by (cases "retryOperation ?op 3 1000 (Some driver) w3")
  have n4: "navigations w4 = navigations w @ [url]"
    using retryOperation_navigations [where operation = ?op and maxRetries = 3 and delay = 1000
        and driver = "Some driver" and w = w3, OF op] s4 n3 by simp
  obtain r5 w5 where s5: "drv_elements driver (FindElements (ByCss interactiveSelector)) w4 = (r5, w5)"
    by (cases "drv_elements driver (FindElements (ByCss interactiveSelector)) w4")
  have n5: "navigations w5 = navigations w @ [url]"
    using navigations_drv(2) [of driver "FindElements (ByCss interactiveSelector)" w4] s5 n4
    by (simp add: navigations_issue)
  have f: "navigations (snd (foldl (\<lambda>st' el. interactWith driver pattern el st') (rs', w5) els))
             = navigations w @ [url]" for els rs'
    using foldl_navigations [where f = "\<lambda>st' el. interactWith driver pattern el st'"
        and st = "(rs', w5)" and xs = els] interactWith_navigations [where pattern = pattern] pm n5
    by simp
  show ?thesis using s1 s2 s3 s4 s5 n1 n2 n3 n4 n5 f
    by (auto simp add: visitUrl_def split: sum.splits)
qed

lemma crawlAndExtract_navigations:
  assumes "\<And>t m w. transform (config pattern) = Some t \<Longrightarrow> navigations (snd (t m None w)) = navigations w"
    and "\<And>vd v w. validate (config pattern) = Some vd \<Longrightarrow> navigations (snd (vd v w)) = navigations w"
  shows "navigations (snd (crawlAndExtract driver baseUrl pattern w)) = navigations w @ [baseUrl]"
proof -
  have pm: "\<And>m rs w. navigations (snd (snd (processMatch pattern m (rs, w)))) = navigations w"
    using processMatch_navigations [where pattern = pattern] assms by blast
  show ?thesis
    unfolding crawlAndExtract_once
    using visitUrl_navigations [where pattern = pattern] pm by blast
qed

lemma crawl_step_inv:
  assumes "crawl_inv s cs"
  shows "crawl_inv s (fst (crawl_step driver pattern (cs, w)))"
proof -
  have "set (tl (urlsToVisit cs)) \<subseteq> set (urlsToVisit cs)"
    by (cases "urlsToVisit cs") auto
  then show ?thesis using assms by (auto simp add: crawl_inv_def crawl_step_fields)
qed

lemma crawl_loop_inv:
  "crawl_inv s (fst st) \<Longrightarrow> crawl_inv s (fst (crawl_loop driver pattern st))"
proof (induction driver pattern st rule: crawl_loop.induct)
  case (1 driver pattern st)
  show ?case
  proof (cases "crawl_continues (fst st)")
    case True
    have "crawl_inv s (fst (crawl_step driver pattern st))"
      using crawl_step_inv [of s "fst st" driver pattern "snd st"] "1.prems" by simp
    then have "crawl_inv s (fst (crawl_loop driver pattern (crawl_step driver pattern st)))"
      using "1.IH" [OF True] by simp
    then show ?thesis using True by (subst crawl_loop.simps) simp
  next
    case False
    then show ?thesis using "1.prems" by (subst crawl_loop.simps) simp
  qed
qed

text \<open>
  C3. \<open>MAX_PAGES\<close> is 10. The invariant (at most \<open>MAX_PAGES\<close> visited URLs, the seed the
  first of them, the frontier within the visited URLs) holds initially, is kept by every
  iteration and holds when the loop ends. When the closures of the pattern load no page
  themselves, the URLs loaded during a crawl are at most \<open>MAX_PAGES\<close> and start with the
  seed.
\<close>

theorem crawl_visits_at_most_MAX_PAGES:
  "MAX_PAGES = 10
   \<and> crawl_inv baseUrl (crawl_init baseUrl)
   \<and> (crawl_inv baseUrl cs \<longrightarrow>
        crawl_inv baseUrl (fst (crawl_step driver pattern (cs, w')))
        \<and> crawl_inv baseUrl (fst (crawl_loop driver pattern (cs, w'))))
   \<and> crawl_inv baseUrl (fst (crawl_loop driver pattern (crawl_init baseUrl, w)))
   \<and> ((\<forall>t m w. transform (config pattern) = Some t \<longrightarrow> navigations (snd (t m None w)) = navigations w)
        \<and> (\<forall>vd v w. validate (config pattern) = Some vd \<longrightarrow> navigations (snd (vd v w)) = navigations w)
      \<longrightarrow> length (drop (length (navigations w)) (navigations (snd (crawlAndExtract driver baseUrl pattern w))))
             \<le> MAX_PAGES
          \<and> take 1 (drop (length (navigations w)) (navigations (snd (crawlAndExtract driver baseUrl pattern w))))
             = [baseUrl])"
proof -
  have init: "crawl_inv baseUrl (crawl_init baseUrl)"
    by (simp add: crawl_inv_def crawl_init_def MAX_PAGES_def)
  have step: "crawl_inv baseUrl cs \<Longrightarrow> crawl_inv baseUrl (fst (crawl_step driver pattern (cs, w')))"
    by (rule crawl_step_inv)
  have loop: "crawl_inv baseUrl cs \<Longrightarrow> crawl_inv baseUrl (fst (crawl_loop driver pattern (cs, w')))"
    using crawl_loop_inv [of baseUrl "(cs, w')" driver pattern] by simp
  have final: "crawl_inv baseUrl (fst (crawl_loop driver pattern (crawl_init baseUrl, w)))"
    using crawl_loop_inv [of baseUrl "(crawl_init baseUrl, w)" driver pattern] init by simp
  have nav: "navigations (snd (crawlAndExtract driver baseUrl pattern w)) = navigations w @ [baseUrl]"
    if "\<forall>t m w. transform (config pattern) = Some t \<longrightarrow> navigations (snd (t m None w)) = navigations w"
      and "\<forall>vd v w. validate (config pattern) = Some vd \<longrightarrow> navigations (snd (vd v w)) = navigations w"
    using crawlAndExtract_navigations [where pattern = pattern] that by blast
  show ?thesis using init step loop final nav by (simp add: MAX_PAGES_def)
qed

text \<open>
  The theorem at a crawl of a page with one link.
\<close>

theorem crawl_visits_at_most_MAX_PAGES_witness:
  "crawl_inv seed (fst (crawl_loop one_link rejecting_pattern (crawl_init seed, fresh_world)))
   \<and> length (navigations (snd (crawlAndExtract one_link seed rejecting_pattern fresh_world))) \<le> 10
   \<and> take 1 (navigations (snd (crawlAndExtract one_link seed rejecting_pattern fresh_world))) = [seed]"
proof -
  have 1: "\<forall>t m w. transform (config rejecting_pattern) = Some t \<longrightarrow> navigations (snd (t m None w)) = navigations w"
    by (auto simp add: rejecting_pattern_def reject_def)
  have 2: "\<forall>vd v w. validate (config rejecting_pattern) = Some vd \<longrightarrow> navigations (snd (vd v w)) = navigations w"
    by (simp add: rejecting_pattern_def)
  have 3: "navigations fresh_world = []" by (simp add: navigations_def fresh_world_def)
  note th = crawl_visits_at_most_MAX_PAGES [where baseUrl = seed and cs = "crawl_init seed"
        and driver = one_link and pattern = rejecting_pattern and w' = fresh_world and w = fresh_world]
  let ?urls = "navigations (snd (crawlAndExtract one_link seed rejecting_pattern fresh_world))"
  have 4: "length (drop (length (navigations fresh_world)) ?urls) \<le> MAX_PAGES
           \<and> take 1 (drop (length (navigations fresh_world)) ?urls) = [seed]"
    using th 1 2 by blast
  have 5: "crawl_inv seed (fst (crawl_loop one_link rejecting_pattern (crawl_init seed, fresh_world)))"
    using th by blast
  have 6: "MAX_PAGES = 10" using th by blast
  show ?thesis using 3 4 5 6 by simp
qed

text \<open>
  C9. An iteration removes the first URL of the frontier and adds none, and leaves the
  visited set as it is. Started from the seed, the loop equals one iteration: the visited
  set ends as the seed alone, the frontier empty, and \<open>crawlAndExtract\<close> is the visit of
  the seed. When the closures of the pattern load no page themselves, the crawl loads
  exactly one URL, the seed.
\<close>

theorem crawl_only_visits_seed:
  "urlsToVisit (fst (crawl_step driver pattern (cs, w'))) = tl (urlsToVisit cs)
   \<and> visitedUrls (fst (crawl_step driver pattern (cs, w'))) = visitedUrls cs
   \<and> crawl_loop driver pattern (crawl_init baseUrl, w) = crawl_step driver pattern (crawl_init baseUrl, w)
   \<and> visitedUrls (fst (crawl_loop driver pattern (crawl_init baseUrl, w))) = [baseUrl]
   \<and> urlsToVisit (fst (crawl_loop driver pattern (crawl_init baseUrl, w))) = []
   \<and> crawlAndExtract driver baseUrl pattern w = visitUrl driver pattern baseUrl ([], w)
   \<and> ((\<forall>t m w. transform (config pattern) = Some t \<longrightarrow> navigations (snd (t m None w)) = navigations w)
        \<and> (\<forall>vd v w. validate (config pattern) = Some vd \<longrightarrow> navigations (snd (vd v w)) = navigations w)
      \<longrightarrow> navigations (snd (crawlAndExtract driver baseUrl pattern w)) = navigations w @ [baseUrl])"
proof -
  have nav: "navigations (snd (crawlAndExtract driver baseUrl pattern w)) = navigations w @ [baseUrl]"
    if "\<forall>t m w. transform (config pattern) = Some t \<longrightarrow> navigations (snd (t m None w)) = navigations w"
      and "\<forall>vd v w. validate (config pattern) = Some vd \<longrightarrow> navigations (snd (vd v w)) = navigations w"
    using crawlAndExtract_navigations [where pattern = pattern] that by blast
  have a: "urlsToVisit (fst (crawl_step driver pattern (cs, w'))) = tl (urlsToVisit cs)"
    and b: "visitedUrls (fst (crawl_step driver pattern (cs, w'))) = visitedUrls cs"
    by (simp_all add: crawl_step_fields)
  have c: "crawl_loop driver pattern (crawl_init baseUrl, w) = crawl_step driver pattern (crawl_init baseUrl, w)"
    by (rule crawl_loop_once)
  have d: "visitedUrls (fst (crawl_loop driver pattern (crawl_init baseUrl, w))) = [baseUrl]"
    and e: "urlsToVisit (fst (crawl_loop driver pattern (crawl_init baseUrl, w))) = []"
    by (simp_all only: crawl_loop_once crawl_step_fields) (simp_all add: crawl_init_def)
  have f: "crawlAndExtract driver baseUrl pattern w = visitUrl driver pattern baseUrl ([], w)"
    by (rule crawlAndExtract_once)
  show ?thesis
    using a b c d e f nav by blast
qed

text \<open>
  The theorem at a crawl of a page with one link, with an asynchronous transform.
\<close>

theorem crawl_only_visits_seed_witness:
  "navigations (snd (crawlAndExtract one_link seed async_pattern fresh_world)) = [seed]
   \<and> visitedUrls (fst (crawl_loop one_link async_pattern (crawl_init seed, fresh_world))) = [seed]"
proof -
  have 1: "\<forall>t m w. transform (config async_pattern) = Some t \<longrightarrow> navigations (snd (t m None w)) = navigations w"
    by (auto simp add: async_pattern_def promised_def navigations_def)
  have 2: "\<forall>vd v w. validate (config async_pattern) = Some vd \<longrightarrow> navigations (snd (vd v w)) = navigations w"
    by (simp add: async_pattern_def)
  have 3: "navigations fresh_world = []" by (simp add: navigations_def fresh_world_def)
  note th = crawl_only_visits_seed [where baseUrl = seed and cs = "crawl_init seed"
        and driver = one_link and pattern = async_pattern and w' = fresh_world and w = fresh_world]
  have 4: "navigations (snd (crawlAndExtract one_link seed async_pattern fresh_world))
             = navigations fresh_world @ [seed]"
    using th 1 2 by blast
  have 5: "visitedUrls (fst (crawl_loop one_link async_pattern (crawl_init seed, fresh_world))) = [seed]"
    using th by blast
  show ?thesis using 3 4 5 by simp
qed

subsection \<open>Synthesized patterns and the handler\<close>

lemma validateAndTransformPattern_rejects:
  "pattern \<noteq> JNull \<Longrightarrow>
   \<not> (prop_truthy pattern ''name'' \<and> prop_truthy pattern ''patterns'' \<and> prop_truthy pattern ''config'') \<Longrightarrow>
   validateAndTransformPattern cmp pattern = Inr None"
  by (auto simp add: validateAndTransformPattern_def)

lemma validateAndTransformPattern_accepts:
  "validateAndTransformPattern cmp pattern = Inr (Some p') \<Longrightarrow>
   prop_truthy pattern ''name'' \<and> prop_truthy pattern ''patterns'' \<and> prop_truthy pattern ''config''"
  by (auto simp add: validateAndTransformPattern_def split: if_splits sum.splits)

lemma generateDataPattern_Some:
  "generateDataPattern h dataType = Some p' \<Longrightarrow>
   \<exists>response pattern. generateText h (AskPattern dataType) = Inr (VStr response)
      \<and> JSON_parse h response = Inr pattern
      \<and> validateAndTransformPattern (compiles h) pattern = Inr (Some p')"
  by (auto simp add: generateDataPattern_def split: sum.splits jsval.splits)

lemma generateDataPattern_rejects:
  assumes "generateText h (AskPattern dataType) = Inr (VStr response)"
    and "JSON_parse h response = Inr pattern"
    and "\<not> (prop_truthy pattern ''name'' \<and> prop_truthy pattern ''patterns'' \<and> prop_truthy pattern ''config'')"
  shows "generateDataPattern h dataType = None"
proof (cases "pattern = JNull")
  case True
  then show ?thesis using assms(1,2)
    by (simp add: generateDataPattern_def validateAndTransformPattern_def)
next
  case False
  then show ?thesis using assms validateAndTransformPattern_rejects [OF False assms(3)]
    by (simp add: generateDataPattern_def)
qed

lemma assoc_set_new:
  "map_of kvs k = None \<Longrightarrow> assoc_set k v kvs = kvs @ [(k, v)]"
  by (induction kvs) (auto split: if_splits)

lemma determineDataTypes_registers:
  assumes "determineDataTypes h dataPatterns request = Inr (types, dataPatterns')"
    and "dataPatterns' \<noteq> dataPatterns"
  shows "\<exists>dataType p'. generateText h (AskDataType (toLowerCase h request)) = Inr (VStr dataType)
           \<and> \<not> registry_has dataPatterns dataType
           \<and> generateDataPattern h dataType = Some p'
           \<and> types = [dataType]
           \<and> dataPatterns' = dataPatterns @ [(dataType, asDataPattern h p')]"
  using assms
  by (auto simp add: determineDataTypes_def Let_def registry_has_def assoc_set_new
      split: if_splits sum.splits jsval.splits option.splits)

lemma determineDataTypes_drops:
  assumes "scanTypes h (toLowerCase h request) dataPatterns = Inr []"
    and "generateText h (AskDataType (toLowerCase h request)) = Inr (VStr dataType)"
    and "generateDataPattern h dataType = None"
  shows "determineDataTypes h dataPatterns request = Inr ([], dataPatterns)"
  using assms by (simp add: determineDataTypes_def Let_def)

text \<open>
  C7 (as amended). \<open>validateAndTransformPattern\<close> answers \<open>null\<close> for a specification
  other than \<open>null\<close> that lacks a truthy \<open>name\<close>, a truthy \<open>patterns\<close> or a truthy
  \<open>config\<close>, and throws a TypeError for the specification \<open>null\<close>. In both cases
  \<open>generateDataPattern\<close> answers \<open>null\<close>, and \<open>determineDataTypes\<close>, when its scan of the
  registry found no key, returns no key and the registry as it was. Conversely the
  registry changes only by one new entry for the proposed key, and only when the parsed
  specification has a truthy \<open>name\<close>, \<open>patterns\<close> and \<open>config\<close>.
\<close>

theorem synthesized_pattern_registration:
  "(pattern \<noteq> JNull
      \<and> \<not> (prop_truthy pattern ''name'' \<and> prop_truthy pattern ''patterns'' \<and> prop_truthy pattern ''config'')
      \<longrightarrow> validateAndTransformPattern cmp pattern = Inr None)
   \<and> validateAndTransformPattern cmp JNull = Inl (TypeError ''name'')
   \<and> (generateText h (AskPattern proposed) = Inr (VStr response) \<and> JSON_parse h response = Inr pattern
      \<and> \<not> (prop_truthy pattern ''name'' \<and> prop_truthy pattern ''patterns'' \<and> prop_truthy pattern ''config'')
      \<longrightarrow> generateDataPattern h proposed = None)
   \<and> (scanTypes h (toLowerCase h request) dataPatterns = Inr []
      \<and> generateText h (AskDataType (toLowerCase h request)) = Inr (VStr proposed)
      \<and> generateDataPattern h proposed = None
      \<longrightarrow> determineDataTypes h dataPatterns request = Inr ([], dataPatterns))
   \<and> (determineDataTypes h dataPatterns request = Inr (types, dataPatterns') \<and> dataPatterns' \<noteq> dataPatterns
      \<longrightarrow> (\<exists>dataType response spec p'.
             generateText h (AskDataType (toLowerCase h request)) = Inr (VStr dataType)
             \<and> \<not> registry_has dataPatterns dataType
             \<and> generateText h (AskPattern dataType) = Inr (VStr response)
             \<and> JSON_parse h response = Inr spec
             \<and> validateAndTransformPattern (compiles h) spec = Inr (Some p')
             \<and> prop_truthy spec ''name'' \<and> prop_truthy spec ''patterns'' \<and> prop_truthy spec ''config''
             \<and> types = [dataType]
             \<and> dataPatterns' = dataPatterns @ [(dataType, asDataPattern h p')]))"
proof -
  have d: "\<exists>dataType response spec p'.
             generateText h (AskDataType (toLowerCase h request)) = Inr (VStr dataType)
             \<and> \<not> registry_has dataPatterns dataType
             \<and> generateText h (AskPattern dataType) = Inr (VStr response)
             \<and> JSON_parse h response = Inr spec
             \<and> validateAndTransformPattern (compiles h) spec = Inr (Some p')
             \<and> prop_truthy spec ''name'' \<and> prop_truthy spec ''patterns'' \<and> prop_truthy spec ''config''
             \<and> types = [dataType]
             \<and> dataPatterns' = dataPatterns @ [(dataType, asDataPattern h p')]"
    if r: "determineDataTypes h dataPatterns request = Inr (types, dataPatterns')"
      and ne: "dataPatterns' \<noteq> dataPatterns"
  proof -
    obtain dataType p' where 1: "generateText h (AskDataType (toLowerCase h request)) = Inr (VStr dataType)"
      and 2: "\<not> registry_has dataPatterns dataType"
      and 3: "generateDataPattern h dataType = Some p'"
      and 4: "types = [dataType]"
      and 5: "dataPatterns' = dataPatterns @ [(dataType, asDataPattern h p')]"
      using determineDataTypes_registers [OF r ne] by blast
    obtain response spec where 6: "generateText h (AskPattern dataType) = Inr (VStr response)"
      and 7: "JSON_parse h response = Inr spec"
      and 8: "validateAndTransformPattern (compiles h) spec = Inr (Some p')"
      using generateDataPattern_Some [OF 3] by blast
    show ?thesis using 1 2 4 5 6 7 8 validateAndTransformPattern_accepts [OF 8] by blast
  qed
  have n: "validateAndTransformPattern cmp JNull = Inl (TypeError ''name'')"
    by (simp add: validateAndTransformPattern_def)
  show ?thesis
    using validateAndTransformPattern_rejects [of pattern cmp]
      generateDataPattern_rejects [of h proposed response pattern]
      determineDataTypes_drops [of h request dataPatterns proposed] d n
    by blast
qed

text \<open>
  The theorem at a registry with one entry that the request does not mention. A
  specification with an empty name is rejected, by the validator and by
  \<open>generateDataPattern\<close>, and nothing is registered. A specification that is registered
  has a truthy \<open>name\<close>, \<open>patterns\<close> and \<open>config\<close>.
\<close>

theorem synthesized_pattern_registration_witness:
  "validateAndTransformPattern (\<lambda>ps body. True) nameless_spec = Inr None
   \<and> generateDataPattern strict_host ''widgets'' = None
   \<and> determineDataTypes strict_host [(''email'', plain_pattern)] ''show me widgets''
       = Inr ([], [(''email'', plain_pattern)])
   \<and> determineDataTypes eager_host [(''email'', plain_pattern)] ''show me widgets''
       = Inr ([''widgets''], [(''email'', plain_pattern), (''widgets'', no_pattern)])
   \<and> prop_truthy widget_spec ''name'' \<and> prop_truthy widget_spec ''patterns''
   \<and> prop_truthy widget_spec ''config''"
proof -
  have 1: "nameless_spec \<noteq> JNull" by (simp add: nameless_spec_def)
  have 2: "\<not> (prop_truthy nameless_spec ''name'' \<and> prop_truthy nameless_spec ''patterns''
               \<and> prop_truthy nameless_spec ''config'')"
    by (simp add: nameless_spec_def prop_truthy_def)
  have 3: "generateText strict_host (AskPattern ''widgets'') = Inr (VStr ''widget specification'')"
    by (simp add: strict_host_def eager_host_def)
  have 4: "JSON_parse strict_host ''widget specification'' = Inr nameless_spec"
    by (simp add: strict_host_def eager_host_def)
  have 5: "scanTypes strict_host (toLowerCase strict_host ''show me widgets'') [(''email'', plain_pattern)] = Inr []"
    by (simp add: strict_host_def eager_host_def)
  have 6: "generateText strict_host (AskDataType (toLowerCase strict_host ''show me widgets'')) = Inr (VStr ''widgets'')"
    by (simp add: strict_host_def eager_host_def)
  note th = synthesized_pattern_registration [where pattern = nameless_spec and cmp = "\<lambda>ps body. True"
      and h = strict_host and proposed = "''widgets''" and response = "''widget specification''"
      and request = "''show me widgets''" and dataPatterns = "[(''email'', plain_pattern)]"]
  have 7: "validateAndTransformPattern (\<lambda>ps body. True) nameless_spec = Inr None"
    using th 1 2 by blast
  have 8: "generateDataPattern strict_host ''widgets'' = None"
    using th 2 3 4 by blast
  have 9: "determineDataTypes strict_host [(''email'', plain_pattern)] ''show me widgets''
             = Inr ([], [(''email'', plain_pattern)])"
    using th 5 6 8 by blast
  have 10: "determineDataTypes eager_host [(''email'', plain_pattern)] ''show me widgets''
             = Inr ([''widgets''], [(''email'', plain_pattern), (''widgets'', no_pattern)])"
    by (simp add: determineDataTypes_def generateDataPattern_def validateAndTransformPattern_def
        compileField_def prop_truthy_def registry_has_def objectPrototypeKeys_def
        eager_host_def widget_spec_def)
  have 11: "[(''email'', plain_pattern), (''widgets'', no_pattern)] \<noteq> [(''email'', plain_pattern)]"
    by simp
  have "\<exists>dataType response spec p'.
          JSON_parse eager_host response = Inr spec
          \<and> prop_truthy spec ''name'' \<and> prop_truthy spec ''patterns'' \<and> prop_truthy spec ''config''"
    using synthesized_pattern_registration [where h = eager_host and request = "''show me widgets''"
        and dataPatterns = "[(''email'', plain_pattern)]" and types = "[''widgets'']"
        and dataPatterns' = "[(''email'', plain_pattern), (''widgets'', no_pattern)]"] 10 11
    by blast
  then have 12: "prop_truthy widget_spec ''name'' \<and> prop_truthy widget_spec ''patterns''
                 \<and> prop_truthy widget_spec ''config''"
    by (auto simp add: eager_host_def)
  show ?thesis using 7 8 9 10 12 by simp
qed

text \<open>
  C7 as stated fails: a specification with a name, an empty pattern list and a
  configuration without selectors passes the validation and is registered.
\<close>

theorem empty_pattern_list_is_registered_counterexample:
  "get_prop widget_spec ''patterns'' = Some (JArr [])
   \<and> get_prop widget_spec ''config'' = Some (JObj [])
   \<and> get_prop (JObj []) ''selectors'' = None
   \<and> validateAndTransformPattern (compiles eager_host) widget_spec = Inr (Some widget_spec)
   \<and> determineDataTypes eager_host [] ''show me widgets'' = Inr ([''widgets''], [(''widgets'', no_pattern)])"
  by (simp add: determineDataTypes_def generateDataPattern_def validateAndTransformPattern_def
      compileField_def prop_truthy_def registry_has_def objectPrototypeKeys_def
      eager_host_def widget_spec_def)

lemma handlerCatch_Error:
  "handlerCatch callback (Error nm msg) = (Inr False, callbackWith callback (Failed msg))"
  by (simp add: handlerCatch_def callbackWith_def)

lemma handlerCatch_not_True: "fst (handlerCatch callback e) \<noteq> Inr True"
  by (cases e) (simp_all add: handlerCatch_def)

text \<open>
  C8 (as amended). When neither the request nor the settings give a URL, the handler does
  not return \<open>true\<close> and leaves the world as it was: no driver is built and no command
  is sent. When at least one data type was determined, it returns \<open>false\<close> and the
  callback, if there is one, receives the failure
  \<open>No website URL provided or configured\<close>.
\<close>

theorem handler_without_url:
  assumes "websiteUrl h request = None"
  shows "fst (handler h b callback dataPatterns request w) \<noteq> Inr True
     \<and> snd (snd (snd (handler h b callback dataPatterns request w))) = w
     \<and> (determineDataTypes h dataPatterns request = Inr (dataTypes, dataPatterns1) \<and> dataTypes \<noteq> [] \<longrightarrow>
          handler h b callback dataPatterns request w
            = (Inr False, callbackWith callback (Failed ''No website URL provided or configured''),
               dataPatterns1, w))"
proof (cases "determineDataTypes h dataPatterns request")
  case (Inl e)
  obtain r replies where c: "handlerCatch callback e = (r, replies)"
    by (cases "handlerCatch callback e")
  then have "r \<noteq> Inr True" using handlerCatch_not_True [of callback e] by simp
  then show ?thesis using Inl c by (simp add: handler_def)
next
  case (Inr p)
  obtain ts reg where p: "p = (ts, reg)" by (cases p)
  show ?thesis using Inr p assms
    by (simp add: handler_def handlerCatch_Error)
qed

text \<open>
  The theorem at a request for which a data type is synthesized and no URL is known.
\<close>

theorem handler_without_url_witness:
  "handler eager_host one_link True [] ''show me widgets'' fresh_world
     = (Inr False, [Failed ''No website URL provided or configured''], [(''widgets'', no_pattern)], fresh_world)"
proof -
  have 1: "websiteUrl eager_host ''show me widgets'' = None"
    by (simp add: websiteUrl_def nonEmpty_def extractUrlFromMessage_def eager_host_def)
  have 2: "determineDataTypes eager_host [] ''show me widgets'' = Inr ([''widgets''], [(''widgets'', no_pattern)])"
    by (simp add: determineDataTypes_def generateDataPattern_def validateAndTransformPattern_def
      compileField_def prop_truthy_def registry_has_def objectPrototypeKeys_def
      eager_host_def widget_spec_def)
  show ?thesis
    using handler_without_url [OF 1, where dataPatterns = "[]" and dataTypes = "[''widgets'']"
        and ?dataPatterns1.0 = "[(''widgets'', no_pattern)]" and b = one_link and callback = True
        and w = fresh_world] 2
    by (simp add: callbackWith_def)
qed

text \<open>
  C8 as stated fails: when no data type is determined, the handler fails before it looks
  for a URL and reports \<open>Unclear data type request\<close>, not a missing URL.
\<close>

theorem handler_unclear_request_counterexample:
  "websiteUrl strict_host ''hello'' = None
   \<and> handler strict_host one_link True [] ''hello'' fresh_world
       = (Inr False, [Failed ''Unclear data type request''], [], fresh_world)"
  by (simp add: handler_def determineDataTypes_def generateDataPattern_def
      validateAndTransformPattern_def prop_truthy_def registry_has_def objectPrototypeKeys_def
      websiteUrl_def nonEmpty_def extractUrlFromMessage_def callbackWith_def
      strict_host_def eager_host_def nameless_spec_def)

end
